theory Spec2Isabelle
  imports Main "HOL-Library.Word"
begin

unbundle bit_operations_syntax

section \<open>Machine types and errors\<close>

text \<open>
  \<open>size_t\<close> is the 64-bit unsigned integer of the target platform; \<open>+\<close>, \<open>-\<close> and
  \<open>*\<close> on it wrap around. Orbital counts, electron counts and loop indices are small
  natural numbers; where the source subtracts two of them in \<open>size_t\<close> the wrap-around
  is written out (\<open>size_t_diff_plus\<close>).

  Exceptions of the source are values of \<open>error\<close>: \<open>InvalidArgument\<close> is
  \<open>std::invalid_argument\<close>, \<open>OverflowError\<close> is \<open>std::overflow_error\<close>,
  \<open>BadNumericCast\<close> is \<open>boost::numeric::bad_numeric_cast\<close>, and
  \<open>UndefinedBehaviour\<close> marks the places where C++ gives the program no meaning
  (an index past the end of a \<open>std::vector\<close>, a shift by at least the width of the type).
\<close>

type_synonym size_t = "64 word"

datatype error = InvalidArgument | OverflowError | BadNumericCast | UndefinedBehaviour

text \<open>
  The value of \<open>(M - N) + k\<close> computed in \<open>size_t\<close>, for \<open>M\<close> and \<open>N\<close> below \<open>2 ^ 64\<close>.
  For \<open>N \<le> M\<close> the sum is a row count of the table and does not wrap.
\<close>

definition size_t_diff_plus :: "nat \<Rightarrow> nat \<Rightarrow> nat \<Rightarrow> nat" where
  "size_t_diff_plus M N k =
     (if N \<le> M then M - N + k else (2 ^ 64 - (N - M) + k) mod 2 ^ 64)"

section \<open>The vertex-weight table\<close>

text \<open>
  \<open>std::vector<std::vector<size_t>>\<close>: a list of rows. Reading or writing past the end
  of a vector is undefined in C++, and is an error value here.
\<close>

type_synonym weights = "size_t list list"

definition get_weight :: "weights \<Rightarrow> nat \<Rightarrow> nat \<Rightarrow> error + size_t" where
  "get_weight T p m =
     (if p < length T \<and> m < length (T ! p) then Inr (T ! p ! m) else Inl UndefinedBehaviour)"

definition set_weight :: "weights \<Rightarrow> nat \<Rightarrow> nat \<Rightarrow> size_t \<Rightarrow> error + weights" where
  "set_weight T p m v =
     (if p < length T \<and> m < length (T ! p) then Inr (T[p := (T ! p)[m := v]])
      else Inl UndefinedBehaviour)"

text \<open>The first loop of the constructor: \<open>for (p = 0; p < M - N + 1; p++) W[p][0] = 1\<close>.\<close>

function init_first_column :: "nat \<Rightarrow> nat \<Rightarrow> weights \<Rightarrow> error + weights" where
  "init_first_column bound p T =
     (if p < bound then
        (case set_weight T p 0 1 of
           Inl e \<Rightarrow> Inl e
         | Inr T' \<Rightarrow> init_first_column bound (p + 1) T')
      else Inr T)"
  by pat_completeness auto
termination
  by (relation "measure (\<lambda>(bound, p, T). bound - p)") auto

declare init_first_column.simps [simp del]

text \<open>
  The inner loop of the recurrence, for one column \<open>m\<close>:
  \<open>for (p = m; p < (M - N + m) + 1; p++) W[p][m] = W[p - 1][m] + W[p - 1][m - 1]\<close>.
\<close>

function fill_column :: "nat \<Rightarrow> nat \<Rightarrow> nat \<Rightarrow> weights \<Rightarrow> error + weights" where
  "fill_column bound m p T =
     (if p < bound then
        (case get_weight T (p - 1) m of
           Inl e \<Rightarrow> Inl e
         | Inr a \<Rightarrow>
            (case get_weight T (p - 1) (m - 1) of
               Inl e \<Rightarrow> Inl e
             | Inr b \<Rightarrow>
                (case set_weight T p m (a + b) of
                   Inl e \<Rightarrow> Inl e
                 | Inr T' \<Rightarrow> fill_column bound m (p + 1) T')))
      else Inr T)"
  by pat_completeness auto
termination
  by (relation "measure (\<lambda>(bound, m, p, T). bound - p)") auto

declare fill_column.simps [simp del]

text \<open>The outer loop: \<open>for (m = 1; m < N + 1; m++)\<close>.\<close>

function fill_columns :: "nat \<Rightarrow> nat \<Rightarrow> nat \<Rightarrow> weights \<Rightarrow> error + weights" where
  "fill_columns M N m T =
     (if m < N + 1 then
        (case fill_column (size_t_diff_plus M N (m + 1)) m m T of
           Inl e \<Rightarrow> Inl e
         | Inr T' \<Rightarrow> fill_columns M N (m + 1) T')
      else Inr T)"
  by pat_completeness auto
termination
  by (relation "measure (\<lambda>(M, N, m, T). N + 1 - m)") auto

declare fill_columns.simps [simp del]

record ONVBasis =
  numberOfOrbitals :: nat
  numberOfElectrons :: nat
  vertex_weights :: weights

text \<open>
  The constructor \<open>SpinUnresolvedONVBasis(M, N)\<close>: a zero matrix of \<open>M + 1\<close> rows and
  \<open>N + 1\<close> columns, the first column, then the recurrence. It has no check on its arguments.
\<close>

definition SpinUnresolvedONVBasis :: "nat \<Rightarrow> nat \<Rightarrow> error + ONVBasis" where
  "SpinUnresolvedONVBasis M N =
     (case init_first_column (size_t_diff_plus M N 1) 0
             (replicate (M + 1) (replicate (N + 1) 0)) of
        Inl e \<Rightarrow> Inl e
      | Inr T0 \<Rightarrow>
         (case fill_columns M N 1 T0 of
            Inl e \<Rightarrow> Inl e
          | Inr T \<Rightarrow>
              Inr \<lparr>numberOfOrbitals = M, numberOfElectrons = N, vertex_weights = T\<rparr>))"

text \<open>
  Modelled from the spec: \<open>vertexWeight\<close> is declared in the header
  \<open>SpinUnresolvedONVBasis.hpp\<close>, which is not among the sources. The spec gives it as a
  read-only lookup in the table that returns 0 for indices outside the table's shape.
\<close>

definition vertexWeight :: "ONVBasis \<Rightarrow> nat \<Rightarrow> nat \<Rightarrow> size_t" where
  "vertexWeight B p m =
     (if p < length (vertex_weights B) \<and> m < length (vertex_weights B ! p)
      then vertex_weights B ! p ! m else 0)"

definition arcWeight :: "ONVBasis \<Rightarrow> nat \<Rightarrow> nat \<Rightarrow> size_t" where
  "arcWeight B p n = vertexWeight B p (n + 1)"

section \<open>Basic information\<close>

text \<open>
  A \<open>double\<close> is kept as a significand and a binary exponent, with the value
  \<open>significand * 2 ^ exponent\<close>; the significand of an IEEE 754 double has 53 bits.
\<close>

record double =
  significand :: int
  exponent :: int

definition is_double :: "double \<Rightarrow> bool" where
  "is_double d = (\<bar>significand d\<bar> < 2 ^ 53 \<and> - 1074 \<le> exponent d \<and> exponent d \<le> 971)"

text \<open>The value of a double truncated towards zero.\<close>

definition double_trunc :: "double \<Rightarrow> int" where
  "double_trunc d =
     (if 0 \<le> exponent d then significand d * 2 ^ nat (exponent d)
      else sgn (significand d) * (\<bar>significand d\<bar> div 2 ^ nat (- exponent d)))"

text \<open>
  \<open>boost::numeric::converter<size_t, double>::convert\<close>: a value of -1 or less, or of
  \<open>2 ^ 64\<close> or more, is out of range (\<open>bad_numeric_cast\<close>); a value in range is truncated.
\<close>

definition convert_size_t_double :: "double \<Rightarrow> error + size_t" where
  "convert_size_t_double d =
     (let t = double_trunc d
      in if t < 0 \<or> 2 ^ 64 \<le> t then Inl BadNumericCast else Inr (word_of_int t))"

text \<open>
  \<open>calculateDimension(M, N)\<close> casts both arguments to \<open>unsigned\<close> (32 bits), asks Boost
  for the binomial coefficient as a \<open>double\<close> and converts it to \<open>size_t\<close>; the
  \<open>bad_numeric_cast\<close> of the conversion is caught and raised again as
  \<open>std::overflow_error\<close>. Boost's routine \<open>binomial_coefficient<double>\<close> is outside this
  repository and is a parameter: it returns a double or raises.
\<close>

definition calculateDimension ::
  "(nat \<Rightarrow> nat \<Rightarrow> error + double) \<Rightarrow> nat \<Rightarrow> nat \<Rightarrow> error + size_t" where
  "calculateDimension binomial_coefficient M N =
     (case binomial_coefficient (M mod 2 ^ 32) (N mod 2 ^ 32) of
        Inl e \<Rightarrow> Inl e
      | Inr dim_double \<Rightarrow>
         (case convert_size_t_double dim_double of
            Inl e \<Rightarrow> Inl OverflowError
          | Inr dim \<Rightarrow> Inr dim))"

text \<open>
  Modelled from the spec: \<open>dimension()\<close> is declared in the header
  \<open>SpinUnresolvedONVBasis.hpp\<close>, which is not among the sources. The spec gives the
  dimension of the basis as \<open>C(M, N)\<close>, failing with an overflow condition if that does
  not fit the address type.
\<close>

definition dimension :: "ONVBasis \<Rightarrow> error + size_t" where
  "dimension B =
     (if numberOfOrbitals B choose numberOfElectrons B < 2 ^ 64
      then Inr (of_nat (numberOfOrbitals B choose numberOfElectrons B))
      else Inl OverflowError)"

section \<open>Addressing scheme\<close>

text \<open>
  \<open>__builtin_ctzl\<close>: the number of trailing zero bits. The builtin has no defined result
  for 0; the count of all 64 bits stands for it here and callers check for 0 first.
\<close>

definition builtin_ctzl :: "size_t \<Rightarrow> nat" where
  "builtin_ctzl w = length (takeWhile (\<lambda>i. \<not> bit w i) [0..<64])"

text \<open>Clearing the least significant set bit gives a smaller value.\<close>

lemma lowest_bit_set:
  fixes w :: size_t
  assumes "w \<noteq> 0"
  shows "w AND - w \<noteq> 0"
proof -
  define k where "k = (LEAST n. bit w n)"
  from assms obtain n where "bit w n"
    by (auto simp: bit_eq_iff)
  then have bk: "bit w k"
    unfolding k_def by (rule LeastI)
  have low: "\<not> bit w i" if "i < k" for i
    using that not_less_Least unfolding k_def by blast
  have tb: "take_bit k w = 0"
    by (rule bit_eqI) (auto simp: bit_take_bit_iff low)
  define a where "a = drop_bit k w"
  have w: "w = push_bit k a"
    using bits_ident [of k w] tb by (simp add: a_def)
  have odd_a: "odd a"
    using bk by (simp add: a_def bit_iff_odd_drop_bit)
  have mw: "- w = push_bit k (- a)"
    by (simp add: w push_bit_minus)
  have pk: "possible_bit TYPE(size_t) k"
    using bk by (rule bit_imp_possible_bit)
  have "bit (- w) k"
    unfolding mw using odd_a pk by (simp add: bit_push_bit_iff bit_0)
  with bk have b1: "bit (w AND - w) k"
    by (simp add: bit_and_iff)
  show ?thesis
  proof
    assume "w AND - w = 0"
    with b1 show False by simp
  qed
qed

lemma xor_lowest_bit:
  fixes w :: size_t
  shows "w XOR (w AND - w) = w - (w AND - w)"
proof -
  have d: "NOT w AND (w AND - w) = 0"
    by (rule bit_eqI) (simp add: bit_and_iff bit_not_iff)
  show ?thesis
    using disjunctive_diff_eq_and_not [OF d] disjunctive_diff_eq_xor [OF d] by simp
qed

lemma clear_lowest_bit_less:
  fixes w :: size_t
  assumes "w \<noteq> 0"
  shows "unat (w XOR (w AND - w)) < unat w"
proof -
  have le: "w AND - w \<le> w"
    by (rule word_and_le2)
  have "0 < unat (w AND - w)"
    using lowest_bit_set [OF assms] by (simp add: unat_gt_0)
  moreover have "unat (w - (w AND - w)) = unat w - unat (w AND - w)"
    using le by (simp add: unat_sub)
  moreover have "unat (w AND - w) \<le> unat w"
    using le by (simp add: word_le_nat_alt)
  ultimately show ?thesis
    by (simp add: xor_lowest_bit)
qed

text \<open>
  \<open>addressOf\<close>: the loop removes the least significant set bit of \<open>copy\<close> in every
  round, with \<open>copy ^= copy & -copy\<close>.
\<close>

function addressOf_loop :: "ONVBasis \<Rightarrow> size_t \<Rightarrow> size_t \<Rightarrow> nat \<Rightarrow> size_t" where
  "addressOf_loop B copy address electron_count =
     (if copy \<noteq> 0 then
        (let p = builtin_ctzl copy;
             electron_count' = electron_count + 1;
             address' = address + vertexWeight B p electron_count'
         in addressOf_loop B (copy XOR (copy AND - copy)) address' electron_count')
      else address)"
  by pat_completeness auto
termination
  by (relation "measure (\<lambda>(B, copy, address, electron_count). unat copy)")
     (simp_all add: clear_lowest_bit_less)

declare addressOf_loop.simps [simp del]

definition addressOf :: "ONVBasis \<Rightarrow> size_t \<Rightarrow> size_t" where
  "addressOf B representation = addressOf_loop B representation 0 0"

text \<open>
  \<open>nextPermutationOf\<close>: the next larger integer with the same number of set bits.
  \<open>__builtin_ctzl\<close> of 0 and a right shift by 64 are undefined.
\<close>

definition nextPermutationOf :: "size_t \<Rightarrow> error + size_t" where
  "nextPermutationOf representation =
     (let t = representation OR (representation - 1)
      in if representation = 0 \<or> builtin_ctzl representation + 1 \<ge> 64
         then Inl UndefinedBehaviour
         else Inr ((t + 1) OR
                   drop_bit (builtin_ctzl representation + 1) ((NOT t AND (t + 1)) - 1)))"

text \<open>
  The expression \<open>(1) << (p - 1)\<close> of \<open>representationOf\<close>: the literal is an \<open>int\<close>, so
  the shift is a 32-bit signed shift. A count of 31 gives the most negative \<open>int\<close>, a
  count of 32 or more is undefined. \<open>representation |= ...\<close> converts the \<open>int\<close> to
  \<open>size_t\<close>, which extends its sign.
\<close>

definition int_one_shl :: "nat \<Rightarrow> error + size_t" where
  "int_one_shl k =
     (if k < 32 then Inr (scast (push_bit k (1 :: 32 word))) else Inl UndefinedBehaviour)"

text \<open>
  The loop of \<open>representationOf\<close>, \<open>for (p = M; p > 0; p--)\<close>, as recursion on \<open>p\<close>;
  \<open>m\<close> is the number of electrons still to place.
\<close>

fun representationOf_loop ::
  "ONVBasis \<Rightarrow> nat \<Rightarrow> nat \<Rightarrow> size_t \<Rightarrow> size_t \<Rightarrow> error + size_t" where
  "representationOf_loop B 0 m address representation = Inr representation"
| "representationOf_loop B (Suc q) m address representation =
     (let weight = vertexWeight B q m
      in if weight \<le> address then
           (case int_one_shl q of
              Inl e \<Rightarrow> Inl e
            | Inr b \<Rightarrow>
               (if m - 1 = 0 then Inr (representation OR b)
                else representationOf_loop B q (m - 1) (address - weight) (representation OR b)))
         else representationOf_loop B q m address representation)"

definition representationOf :: "ONVBasis \<Rightarrow> size_t \<Rightarrow> error + size_t" where
  "representationOf B address =
     (if numberOfElectrons B \<noteq> 0
      then representationOf_loop B (numberOfOrbitals B) (numberOfElectrons B) address 0
      else Inr 0)"

section \<open>Occupation number vectors\<close>

text \<open>
  Modelled from the spec: the class \<open>SpinUnresolvedONV\<close> is not among the sources. The
  spec gives a configuration as an unsigned integer bit representation (a set bit is an
  occupied orbital) whose derived accessors give the occupied orbital indices in
  ascending order. An ONV is its unsigned representation here; asking for an electron
  the ONV does not have reads past the end of its index vector.
\<close>

definition occupation_indices :: "size_t \<Rightarrow> nat list" where
  "occupation_indices onv = filter (bit onv) [0..<64]"

definition occupationIndexOf :: "size_t \<Rightarrow> nat \<Rightarrow> error + nat" where
  "occupationIndexOf onv e =
     (if e < length (occupation_indices onv) then Inr (occupation_indices onv ! e)
      else Inl UndefinedBehaviour)"

definition constructONVFromAddress :: "ONVBasis \<Rightarrow> size_t \<Rightarrow> error + size_t" where
  "constructONVFromAddress B address = representationOf B address"

definition transformONVToNextPermutation :: "size_t \<Rightarrow> error + size_t" where
  "transformONVToNextPermutation onv = nextPermutationOf onv"

section \<open>Couplings\<close>

text \<open>
  A coupling entry \<open>Eigen::Triplet<double>(row, column, value)\<close>; the values recorded by
  this code are the signs 1 and -1. A sparse matrix is kept as its dimensions and the
  triplets it was set from.
\<close>

type_synonym triplet = "size_t \<times> size_t \<times> int"

record SparseMatrix =
  rows :: size_t
  cols :: size_t
  triplets :: "triplet list"

text \<open>\<open>sparse_entries[k].emplace_back(...)\<close>; an index past the end of the vector is undefined.\<close>

definition emplace_back :: "triplet list list \<Rightarrow> nat \<Rightarrow> triplet \<Rightarrow> error + triplet list list" where
  "emplace_back entries k t =
     (if k < length entries then Inr (entries[k := entries ! k @ [t]])
      else Inl UndefinedBehaviour)"

text \<open>
  The index of the orbital pair \<open>(p, q)\<close>: \<open>p * (K + K + 1 - p) / 2 + q - p\<close>, computed in
  \<open>size_t\<close>; for \<open>q = p\<close> it is the index \<open>p * (K + K + 1 - p) / 2\<close> of the diagonal entries.
\<close>

definition pair_index :: "nat \<Rightarrow> nat \<Rightarrow> nat \<Rightarrow> nat" where
  "pair_index K p q =
     unat ((of_nat p * (of_nat K + of_nat K + 1 - of_nat p)) div 2 + of_nat q - of_nat p :: size_t)"

text \<open>
  Modelled from the spec: \<open>shiftUntilNextUnoccupiedOrbital\<close> is a template of the header
  \<open>SpinUnresolvedONVBasis.hpp\<close>, which is not among the sources. The spec describes the
  scan for the creation orbital: starting at \<open>q\<close>, orbitals that are already occupied are
  skipped, the running sign flips with each occupied orbital passed over, and the address
  follows the arc weights. Passing the occupied orbital \<open>q\<close>, which holds electron \<open>e\<close>,
  moves that electron one place down in the electron count: its weight
  \<open>vertexWeight q (e + 1)\<close> is replaced by \<open>vertexWeight q e\<close>.
\<close>

function shiftUntilNextUnoccupiedOrbital ::
  "ONVBasis \<Rightarrow> size_t \<Rightarrow> size_t \<Rightarrow> nat \<Rightarrow> nat \<Rightarrow> int \<Rightarrow> error + (size_t \<times> nat \<times> nat \<times> int)" where
  "shiftUntilNextUnoccupiedOrbital B onv address q e sign =
     (if e < numberOfElectrons B then
        (case occupationIndexOf onv e of
           Inl err \<Rightarrow> Inl err
         | Inr p \<Rightarrow>
            (if q = p then
               shiftUntilNextUnoccupiedOrbital B onv
                 (address + vertexWeight B q e - vertexWeight B q (e + 1)) (q + 1) (e + 1) (- sign)
             else Inr (address, q, e, sign)))
      else Inr (address, q, e, sign))"
  by pat_completeness auto
termination
  by (relation "measure (\<lambda>(B, onv, address, q, e, sign). numberOfElectrons B - e)") auto

declare shiftUntilNextUnoccupiedOrbital.simps [simp del]

lemma shift_orbital_mono:
  "shiftUntilNextUnoccupiedOrbital B onv address q e sign = Inr (address', q', e', sign') \<Longrightarrow> q \<le> q'"
proof (induction B onv address q e sign rule: shiftUntilNextUnoccupiedOrbital.induct)
  case (1 B onv address q e sign)
  show ?case
  proof (cases "e < numberOfElectrons B")
    case False
    then show ?thesis
      using "1.prems" by (simp add: shiftUntilNextUnoccupiedOrbital.simps [of B onv address q e sign])
  next
    case True
    show ?thesis
    proof (cases "occupationIndexOf onv e")
      case (Inl err)
      then show ?thesis
        using True "1.prems"
        by (simp add: shiftUntilNextUnoccupiedOrbital.simps [of B onv address q e sign])
    next
      case (Inr p)
      show ?thesis
      proof (cases "q = p")
        case False
        then show ?thesis
          using True Inr "1.prems"
          by (simp add: shiftUntilNextUnoccupiedOrbital.simps [of B onv address q e sign])
      next
        case qp: True
        have "shiftUntilNextUnoccupiedOrbital B onv
                 (address + vertexWeight B q e - vertexWeight B q (e + 1)) (q + 1) (e + 1) (- sign)
               = Inr (address', q', e', sign')"
          using True Inr qp "1.prems"
          by (subst (asm) shiftUntilNextUnoccupiedOrbital.simps) simp
        from "1.IH" [OF True Inr qp this] show ?thesis by simp
      qed
    qed
  qed
qed

text \<open>
  The creation loop \<open>while (q < K)\<close> for one annihilated electron: both triplets
  \<open>(I, J, sign)\<close> and \<open>(J, I, sign)\<close> go to the entries of the pair \<open>(p, q)\<close>.
\<close>

function creation_loop ::
  "ONVBasis \<Rightarrow> size_t \<Rightarrow> size_t \<Rightarrow> nat \<Rightarrow> triplet list list \<Rightarrow> size_t \<Rightarrow> nat \<Rightarrow> nat \<Rightarrow> int
   \<Rightarrow> error + triplet list list" where
  "creation_loop B onv I p entries address q e2 sign_e2 =
     (if q < numberOfOrbitals B then
        (let J = address + vertexWeight B q e2;
             k = pair_index (numberOfOrbitals B) p q
         in case emplace_back entries k (I, J, sign_e2) of
              Inl err \<Rightarrow> Inl err
            | Inr entries1 \<Rightarrow>
               (case emplace_back entries1 k (J, I, sign_e2) of
                  Inl err \<Rightarrow> Inl err
                | Inr entries2 \<Rightarrow>
                   (case shiftUntilNextUnoccupiedOrbital B onv address (q + 1) e2 sign_e2 of
                      Inl err \<Rightarrow> Inl err
                    | Inr (address', q', e2', sign_e2') \<Rightarrow>
                        creation_loop B onv I p entries2 address' q' e2' sign_e2')))
      else Inr entries)"
  by pat_completeness auto
termination
proof (relation "measure (\<lambda>(B, onv, I, p, entries, address, q, e2, sign_e2). numberOfOrbitals B - q)")
  show "wf (measure (\<lambda>(B, onv, I, p, entries, address, q, e2, sign_e2). numberOfOrbitals B - q))"
    by simp
next
  fix B :: ONVBasis and onv I :: size_t and p :: nat and entries :: "triplet list list"
    and address :: size_t and q e2 :: nat and sign_e2 :: int and J k x2 x2a x2b x y xa ya xb yb
  assume "q < numberOfOrbitals B"
    and "shiftUntilNextUnoccupiedOrbital B onv address (q + 1) e2 sign_e2 = Inr x2b"
    and "(x, y) = x2b" and "(xa, ya) = y" and "(xb, yb) = ya"
  then have "q + 1 \<le> xa"
    using shift_orbital_mono [of B onv address "q + 1" e2 sign_e2 x xa xb yb] by simp
  with \<open>q < numberOfOrbitals B\<close>
  show "((B, onv, I, p, x2a, x, xa, xb, yb), (B, onv, I, p, entries, address, q, e2, sign_e2))
      \<in> measure (\<lambda>(B, onv, I, p, entries, address, q, e2, sign_e2). numberOfOrbitals B - q)"
    by simp
qed

declare creation_loop.simps [simp del]

text \<open>The loop over the electrons \<open>e1\<close> of the ONV with address \<open>I\<close> (annihilation).\<close>

function annihilation_loop ::
  "ONVBasis \<Rightarrow> size_t \<Rightarrow> size_t \<Rightarrow> nat \<Rightarrow> triplet list list \<Rightarrow> error + triplet list list" where
  "annihilation_loop B onv I e1 entries =
     (if e1 < numberOfElectrons B then
        (case occupationIndexOf onv e1 of
           Inl err \<Rightarrow> Inl err
         | Inr p \<Rightarrow>
            (let address = I - vertexWeight B p (e1 + 1)
             in case emplace_back entries (pair_index (numberOfOrbitals B) p p) (I, I, 1) of
                  Inl err \<Rightarrow> Inl err
                | Inr entries1 \<Rightarrow>
                   (case shiftUntilNextUnoccupiedOrbital B onv address (p + 1) (e1 + 1) 1 of
                      Inl err \<Rightarrow> Inl err
                    | Inr (address', q, e2, sign_e2) \<Rightarrow>
                       (case creation_loop B onv I p entries1 address' q e2 sign_e2 of
                          Inl err \<Rightarrow> Inl err
                        | Inr entries2 \<Rightarrow> annihilation_loop B onv I (e1 + 1) entries2))))
      else Inr entries)"
  by pat_completeness auto
termination
  by (relation "measure (\<lambda>(B, onv, I, e1, entries). numberOfElectrons B - e1)") auto

declare annihilation_loop.simps [simp del]

text \<open>The loop over all addresses \<open>I\<close>; \<open>dim - 1\<close> is only read where \<open>dim\<close> is positive.\<close>

function address_loop ::
  "ONVBasis \<Rightarrow> nat \<Rightarrow> nat \<Rightarrow> size_t \<Rightarrow> triplet list list \<Rightarrow> error + triplet list list" where
  "address_loop B dim I onv entries =
     (if I < dim then
        (case annihilation_loop B onv (of_nat I) 0 entries of
           Inl err \<Rightarrow> Inl err
         | Inr entries' \<Rightarrow>
            (if I < dim - 1 then
               (case transformONVToNextPermutation onv of
                  Inl err \<Rightarrow> Inl err
                | Inr onv' \<Rightarrow> address_loop B dim (I + 1) onv' entries')
             else address_loop B dim (I + 1) onv entries'))
      else Inr entries)"
  by pat_completeness auto
termination
  by (relation "measure (\<lambda>(B, dim, I, onv, entries). dim - I)") auto

declare address_loop.simps [simp del]

text \<open>
  The number of orbital pairs \<open>K * (K + 1) / 2\<close>, the length of both vectors of
  \<open>calculateOneElectronCouplings\<close>, computed in \<open>size_t\<close>.
\<close>

definition pair_count :: "nat \<Rightarrow> nat" where
  "pair_count K = unat ((of_nat K * (of_nat K + 1)) div 2 :: size_t)"

text \<open>
  \<open>calculateOneElectronCouplings\<close>. The calls of \<open>reserve\<close> only set capacities; what is
  kept of them is the call of \<open>calculateDimension(K - 1, N - 1)\<close>, which can raise. \<open>K - 1\<close>
  is a \<open>size_t\<close> subtraction. Boost's binomial routine is passed on to \<open>calculateDimension\<close>.
\<close>

definition calculateOneElectronCouplings ::
  "(nat \<Rightarrow> nat \<Rightarrow> error + double) \<Rightarrow> ONVBasis \<Rightarrow> error + SparseMatrix list" where
  "calculateOneElectronCouplings binomial_coefficient B =
     (let K = numberOfOrbitals B; N = numberOfElectrons B
      in case dimension B of
           Inl err \<Rightarrow> Inl err
         | Inr dim \<Rightarrow>
            (if N = 0 then
               Inr (replicate (pair_count K) \<lparr>rows = dim, cols = dim, triplets = []\<rparr>)
             else
               (case calculateDimension binomial_coefficient (size_t_diff_plus K 1 0) (N - 1) of
                  Inl err \<Rightarrow> Inl err
                | Inr reservation_size \<Rightarrow>
                   (case constructONVFromAddress B 0 of
                      Inl err \<Rightarrow> Inl err
                    | Inr onv \<Rightarrow>
                       (case address_loop B (unat dim) 0 onv (replicate (pair_count K) []) of
                          Inl err \<Rightarrow> Inl err
                        | Inr entries \<Rightarrow>
                            Inr (map (\<lambda>ts. \<lparr>rows = dim, cols = dim, triplets = ts\<rparr>) entries))))))"





section \<open>Iterating\<close>

text \<open>
  \<open>forEach\<close>: the callback is a function on an explicit state \<open>'s\<close>; it receives the ONV
  and its address. \<open>dim - 1\<close> is only read inside the loop, where \<open>dim\<close> is positive.
\<close>

function forEach_loop ::
  "(size_t \<Rightarrow> nat \<Rightarrow> 's \<Rightarrow> 's) \<Rightarrow> nat \<Rightarrow> nat \<Rightarrow> size_t \<Rightarrow> 's \<Rightarrow> error + 's" where
  "forEach_loop callback dim I onv s =
     (if I < dim then
        (let s' = callback onv I s
         in if I < dim - 1 then
              (case transformONVToNextPermutation onv of
                 Inl e \<Rightarrow> Inl e
               | Inr onv' \<Rightarrow> forEach_loop callback dim (I + 1) onv' s')
            else forEach_loop callback dim (I + 1) onv s')
      else Inr s)"
  by pat_completeness auto
termination
  by (relation "measure (\<lambda>(callback, dim, I, onv, s). dim - I)") auto

declare forEach_loop.simps [simp del]

definition forEach :: "ONVBasis \<Rightarrow> (size_t \<Rightarrow> nat \<Rightarrow> 's \<Rightarrow> 's) \<Rightarrow> 's \<Rightarrow> error + 's" where
  "forEach B callback s =
     (case dimension B of
        Inl e \<Rightarrow> Inl e
      | Inr dim \<Rightarrow>
         (case constructONVFromAddress B 0 of
            Inl e \<Rightarrow> Inl e
          | Inr onv \<Rightarrow> forEach_loop callback (unat dim) 0 onv s))"

text \<open>The invocations of the callback, in order: the ONV and the address of each call.\<close>

definition forEach_calls :: "ONVBasis \<Rightarrow> error + (size_t \<times> nat) list" where
  "forEach_calls B = forEach B (\<lambda>onv I calls. calls @ [(onv, I)]) []"

definition popcount :: "size_t \<Rightarrow> nat" where
  "popcount w = length (filter (bit w) [0..<64])"

section \<open>Dense operator evaluations\<close>

text \<open>
  An operator is known to the ONV basis by its number of orbitals and its parameters
  (matrices and tensors of \<open>double\<close>, kept abstract). The generic routine \<open>evaluate\<close>
  that fills the container lives in the header and is a parameter here: it receives
  the basis, the operator and the dimension of the container, and returns the matrix.
\<close>

record 'p ScalarGSQOneElectronOperator =
  f_numberOfOrbitals :: nat
  f_parameters :: 'p

record 'p GSQHamiltonian =
  h_numberOfOrbitals :: nat
  h_parameters :: 'p

definition evaluateOperatorDense_one ::
  "(ONVBasis \<Rightarrow> 'p ScalarGSQOneElectronOperator \<Rightarrow> size_t \<Rightarrow> 'm) \<Rightarrow>
   ONVBasis \<Rightarrow> 'p ScalarGSQOneElectronOperator \<Rightarrow> error + 'm" where
  "evaluateOperatorDense_one evaluate B f =
     (if f_numberOfOrbitals f \<noteq> numberOfOrbitals B then Inl InvalidArgument
      else (case dimension B of
              Inl e \<Rightarrow> Inl e
            | Inr dim \<Rightarrow> Inr (evaluate B f dim)))"

definition evaluateOperatorDense_hamiltonian ::
  "(ONVBasis \<Rightarrow> 'p GSQHamiltonian \<Rightarrow> size_t \<Rightarrow> 'm) \<Rightarrow>
   ONVBasis \<Rightarrow> 'p GSQHamiltonian \<Rightarrow> error + 'm" where
  "evaluateOperatorDense_hamiltonian evaluate B hamiltonian =
     (if h_numberOfOrbitals hamiltonian \<noteq> numberOfOrbitals B then Inl InvalidArgument
      else (case dimension B of
              Inl e \<Rightarrow> Inl e
            | Inr dim \<Rightarrow> Inr (evaluate B hamiltonian dim)))"

section \<open>The DIIS step of the RHF SCF solver\<close>

text \<open>
  \<open>DIISRHFSCFSolver::calculateNewFockMatrix\<close>. The Fock, density, overlap and error
  matrices are Eigen matrices of \<open>double\<close>; they are values of a type \<open>'m\<close> here, and the
  Hamiltonian parameters are a value of a type \<open>'h\<close>. The floating-point operations on
  them that the function calls belong to Eigen and to headers that are not among the
  sources; they are parameters of the model, collected in a record: the accessor
  \<open>get_S\<close>, the builder
  \<open>calculateRHFAOFockMatrix\<close>, the matrix product, difference and sum, the transpose,
  the trace, the product of a scalar and a matrix, \<open>Zero(rows, cols)\<close>, \<open>cols()\<close>, and
  the solver \<open>Eigen::HouseholderQR<MatrixXd>(B).solve(b)\<close>.
\<close>

record ('m, 'h) matrix_operations =
  get_S :: "'h \<Rightarrow> 'm"
  calculateRHFAOFockMatrix :: "'m \<Rightarrow> 'h \<Rightarrow> 'm"
  mat_mul :: "'m \<Rightarrow> 'm \<Rightarrow> 'm"
  mat_sub :: "'m \<Rightarrow> 'm \<Rightarrow> 'm"
  mat_add :: "'m \<Rightarrow> 'm \<Rightarrow> 'm"
  mat_transpose :: "'m \<Rightarrow> 'm"
  mat_trace :: "'m \<Rightarrow> double"
  mat_scale :: "double \<Rightarrow> 'm \<Rightarrow> 'm"
  mat_zero :: "nat \<Rightarrow> nat \<Rightarrow> 'm"
  mat_cols :: "'m \<Rightarrow> nat"
  householder_qr_solve :: "double list list \<Rightarrow> double list \<Rightarrow> double list"

text \<open>
  The members of the solver that the function reads and writes. Both deques are lists,
  oldest entry first: \<open>emplace_back\<close> appends, \<open>pop_front\<close> drops the head.
\<close>

record ('m, 'h) DIISRHFSCFSolver =
  ham_par :: 'h
  fock_matrix_deque :: "'m list"
  error_matrix_deque :: "'m list"
  minimum_subspace_dimension :: nat
  maximum_subspace_dimension :: nat

text \<open>
  The augmented matrix \<open>B\<close> is a list of rows and the right-hand side \<open>b\<close> a list; the
  function fills both entry by entry. The integers -1 and 0 are doubles without rounding,
  and so is every entry \<open>-1 * 1\<close> of \<open>-1 * Ones(n + 1, n + 1)\<close>.
\<close>

definition double_of_int :: "int \<Rightarrow> double" where
  "double_of_int k = \<lparr>significand = k, exponent = 0\<rparr>"

text \<open>\<open>B(i, j) = v\<close>; every index the function uses is below the \<open>n + 1\<close> rows and columns.\<close>

definition set_coefficient ::
  "double list list \<Rightarrow> nat \<Rightarrow> nat \<Rightarrow> double \<Rightarrow> double list list" where
  "set_coefficient B i j v = B[i := (B ! i)[j := v]]"

text \<open>
  The loops \<open>for (i = 0; i < n; i++)\<close> and \<open>for (j = 0; j < n; j++)\<close> over the error
  matrices: \<open>B(i, j) = (e_i.transpose() * e_j).trace()\<close>.
\<close>

definition B_row_loop ::
  "('m, 'h) matrix_operations \<Rightarrow> 'm list \<Rightarrow> nat \<Rightarrow> nat \<Rightarrow> double list list \<Rightarrow> double list list" where
  "B_row_loop ops errors n i B =
     fold (\<lambda>j B. set_coefficient B i j
             (mat_trace ops (mat_mul ops (mat_transpose ops (errors ! i)) (errors ! j))))
       [0..<n] B"

definition B_loop ::
  "('m, 'h) matrix_operations \<Rightarrow> 'm list \<Rightarrow> nat \<Rightarrow> double list list \<Rightarrow> double list list" where
  "B_loop ops errors n B = fold (\<lambda>i B. B_row_loop ops errors n i B) [0..<n] B"

definition augmented_B ::
  "('m, 'h) matrix_operations \<Rightarrow> 'm list \<Rightarrow> nat \<Rightarrow> double list list" where
  "augmented_B ops errors n =
     B_loop ops errors n
       (set_coefficient (replicate (n + 1) (replicate (n + 1) (double_of_int (- 1))))
          n n (double_of_int 0))"

definition augmented_b :: "nat \<Rightarrow> double list" where
  "augmented_b n = (replicate (n + 1) (double_of_int 0))[n := double_of_int (- 1)]"

text \<open>
  The loop \<open>f_AO += y(i) * fock_matrix_deque[i]\<close> over the indices \<open>i\<close> below \<open>n\<close>; an
  index past the end of the deque or of \<open>y\<close> is undefined.
\<close>

primrec fock_combination_loop ::
  "('m, 'h) matrix_operations \<Rightarrow> double list \<Rightarrow> 'm list \<Rightarrow> nat list \<Rightarrow> 'm \<Rightarrow> error + 'm" where
  "fock_combination_loop ops y focks [] f_AO = Inr f_AO"
| "fock_combination_loop ops y focks (i # rest) f_AO =
     (if i < length y \<and> i < length focks
      then fock_combination_loop ops y focks rest
             (mat_add ops f_AO (mat_scale ops (y ! i) (focks ! i)))
      else Inl UndefinedBehaviour)"

text \<open>
  The subspace collapse at the end of the function: when \<open>n\<close> exceeds the maximum
  subspace dimension, the oldest entry of both deques is discarded.
\<close>

definition collapse_subspace ::
  "nat \<Rightarrow> ('m, 'h) DIISRHFSCFSolver \<Rightarrow> ('m, 'h) DIISRHFSCFSolver" where
  "collapse_subspace n solver =
     (if n > maximum_subspace_dimension solver
      then solver\<lparr>fock_matrix_deque := tl (fock_matrix_deque solver),
                  error_matrix_deque := tl (error_matrix_deque solver)\<rparr>
      else solver)"

text \<open>
  The function returns the new Fock matrix together with the solver after the call.
\<close>

definition calculateNewFockMatrix ::
  "('m, 'h) matrix_operations \<Rightarrow> ('m, 'h) DIISRHFSCFSolver \<Rightarrow> 'm \<Rightarrow>
   error + 'm \<times> ('m, 'h) DIISRHFSCFSolver" where
  "calculateNewFockMatrix ops solver D_AO =
     (let S = get_S ops (ham_par solver);
          f_AO = calculateRHFAOFockMatrix ops D_AO (ham_par solver);
          error_matrix = mat_sub ops (mat_mul ops (mat_mul ops f_AO D_AO) S)
                                     (mat_mul ops (mat_mul ops S D_AO) f_AO);
          solver' = solver\<lparr>fock_matrix_deque := fock_matrix_deque solver @ [f_AO],
                            error_matrix_deque := error_matrix_deque solver @ [error_matrix]\<rparr>;
          n = length (error_matrix_deque solver')
      in if n \<ge> minimum_subspace_dimension solver' then
           (let B = augmented_B ops (error_matrix_deque solver') n;
                b = augmented_b n;
                y = householder_qr_solve ops B b
            in case fock_combination_loop ops y (fock_matrix_deque solver') [0..<n]
                      (mat_zero ops (mat_cols ops S) (mat_cols ops S)) of
                 Inl e \<Rightarrow> Inl e
               | Inr f_AO' \<Rightarrow> Inr (f_AO', collapse_subspace n solver'))
         else Inr (f_AO, collapse_subspace n solver'))"

section \<open>The table built by the constructor\<close>

definition shape :: "weights \<Rightarrow> nat \<Rightarrow> nat \<Rightarrow> bool" where
  "shape T r c = (length T = r \<and> (\<forall>i<r. length (T ! i) = c))"

lemma shape_replicate: "shape (replicate r (replicate c v)) r c"
  by (simp add: shape_def)

lemma set_weight_ok:
  assumes "shape T r c" "p < r" "m < c"
  shows "set_weight T p m v = Inr (T[p := (T ! p)[m := v]])"
    and "shape (T[p := (T ! p)[m := v]]) r c"
    and "i < r \<Longrightarrow> j < c \<Longrightarrow>
         (T[p := (T ! p)[m := v]]) ! i ! j = (if i = p \<and> j = m then v else T ! i ! j)"
  using assms by (auto simp: set_weight_def shape_def nth_list_update)

lemma get_weight_ok:
  assumes "shape T r c" "p < r" "m < c"
  shows "get_weight T p m = Inr (T ! p ! m)"
  using assms by (auto simp: get_weight_def shape_def)

lemma init_first_column_ok:
  assumes "shape T r c" "bound \<le> r" "0 < c"
  shows "\<exists>T'. init_first_column bound p T = Inr T' \<and> shape T' r c \<and>
           (\<forall>i<r. \<forall>j<c. T' ! i ! j = (if j = 0 \<and> p \<le> i \<and> i < bound then 1 else T ! i ! j))"
  using assms
proof (induction bound p T rule: init_first_column.induct)
  case (1 bound p T)
  show ?case
  proof (cases "p < bound")
    case False
    then show ?thesis using "1.prems" by (auto simp: init_first_column.simps [of bound p T])
  next
    case True
    let ?T1 = "T[p := (T ! p)[0 := 1]]"
    have pr: "p < r" using True "1.prems" by simp
    note sw = set_weight_ok [OF "1.prems"(1) pr "1.prems"(3), where v = 1]
    from "1.IH" [OF True sw(1) sw(2) "1.prems"(2,3)]
    obtain T' where T': "init_first_column bound (p + 1) ?T1 = Inr T'" "shape T' r c"
      "\<forall>i<r. \<forall>j<c. T' ! i ! j = (if j = 0 \<and> p + 1 \<le> i \<and> i < bound then 1 else ?T1 ! i ! j)"
      by blast
    have "init_first_column bound p T = Inr T'"
      using True sw(1) T'(1) by (simp add: init_first_column.simps [of bound p T])
    moreover have "\<forall>i<r. \<forall>j<c. T' ! i ! j = (if j = 0 \<and> p \<le> i \<and> i < bound then 1 else T ! i ! j)"
      using T'(3) sw(3) True by (auto simp: le_Suc_eq)
    ultimately show ?thesis using T'(2) by blast
  qed
qed

lemma fill_column_ok:
  assumes "shape T r c" "bound \<le> r" "m < c" "0 < m" "0 < p"
  shows "\<exists>T'. fill_column bound m p T = Inr T' \<and> shape T' r c \<and>
           (\<forall>i<r. \<forall>j<c. j \<noteq> m \<longrightarrow> T' ! i ! j = T ! i ! j) \<and>
           (\<forall>i<r. i < p \<or> bound \<le> i \<longrightarrow> T' ! i ! m = T ! i ! m) \<and>
           (\<forall>i. p \<le> i \<and> i < bound \<longrightarrow> T' ! i ! m = T' ! (i - 1) ! m + T ! (i - 1) ! (m - 1))"
  using assms
proof (induction bound m p T rule: fill_column.induct)
  case (1 bound m p T)
  show ?case
  proof (cases "p < bound")
    case False
    then show ?thesis using "1.prems" by (auto simp: fill_column.simps [of bound m p T])
  next
    case True
    let ?a = "T ! (p - 1) ! m" and ?b = "T ! (p - 1) ! (m - 1)"
    let ?T1 = "T[p := (T ! p)[m := ?a + ?b]]"
    have pr: "p < r" and p1r: "p - 1 < r" and m1c: "m - 1 < c"
      using True "1.prems" by simp_all
    note sh = "1.prems"(1)
    have ga: "get_weight T (p - 1) m = Inr ?a"
      by (rule get_weight_ok [OF sh p1r "1.prems"(3)])
    have gb: "get_weight T (p - 1) (m - 1) = Inr ?b"
      by (rule get_weight_ok [OF sh p1r m1c])
    note sw = set_weight_ok [OF sh pr "1.prems"(3), where v = "?a + ?b"]
    have "\<exists>T'. fill_column bound m (p + 1) ?T1 = Inr T' \<and> shape T' r c \<and>
           (\<forall>i<r. \<forall>j<c. j \<noteq> m \<longrightarrow> T' ! i ! j = ?T1 ! i ! j) \<and>
           (\<forall>i<r. i < p + 1 \<or> bound \<le> i \<longrightarrow> T' ! i ! m = ?T1 ! i ! m) \<and>
           (\<forall>i. p + 1 \<le> i \<and> i < bound \<longrightarrow> T' ! i ! m = T' ! (i - 1) ! m + ?T1 ! (i - 1) ! (m - 1))"
      by (rule "1.IH" [OF True ga gb sw(1) sw(2) "1.prems"(2,3,4)]) simp
    then obtain T' where T': "fill_column bound m (p + 1) ?T1 = Inr T'" "shape T' r c"
      "\<forall>i<r. \<forall>j<c. j \<noteq> m \<longrightarrow> T' ! i ! j = ?T1 ! i ! j"
      "\<forall>i<r. i < p + 1 \<or> bound \<le> i \<longrightarrow> T' ! i ! m = ?T1 ! i ! m"
      "\<forall>i. p + 1 \<le> i \<and> i < bound \<longrightarrow> T' ! i ! m = T' ! (i - 1) ! m + ?T1 ! (i - 1) ! (m - 1)"
      by blast
    have e: "fill_column bound m p T = Inr T'"
      using True ga gb sw(1) T'(1) by (simp add: fill_column.simps [of bound m p T])
    have c1: "\<forall>i<r. \<forall>j<c. j \<noteq> m \<longrightarrow> T' ! i ! j = T ! i ! j"
      using T'(3) sw(3) by simp
    have c2: "\<forall>i<r. i < p \<or> bound \<le> i \<longrightarrow> T' ! i ! m = T ! i ! m"
      using T'(4) sw(3) "1.prems"(3) True by auto
    have c3: "T' ! i ! m = T' ! (i - 1) ! m + T ! (i - 1) ! (m - 1)" if "p \<le> i" "i < bound" for i
    proof (cases "i = p")
      case True
      have "T' ! p ! m = ?T1 ! p ! m" using T'(4) pr by simp
      also have "\<dots> = ?a + ?b" using sw(3) [OF pr "1.prems"(3)] by simp
      also have "?a = T' ! (p - 1) ! m"
        using T'(4) p1r sw(3) [OF p1r "1.prems"(3)] "1.prems"(5) by simp
      finally show ?thesis using True by simp
    next
      case False
      then have i: "p + 1 \<le> i" using that by simp
      have ir: "i - 1 < r" using that "1.prems"(2) by simp
      have "m - 1 \<noteq> m" using "1.prems"(4) by simp
      then have "?T1 ! (i - 1) ! (m - 1) = T ! (i - 1) ! (m - 1)"
        using sw(3) [OF ir m1c] by simp
      then show ?thesis using T'(5) i that by simp
    qed
    show ?thesis using e T'(2) c1 c2 c3 by blast
  qed
qed


definition binomial_weight :: "nat \<Rightarrow> nat \<Rightarrow> nat \<Rightarrow> nat \<Rightarrow> size_t" where
  "binomial_weight M N p m = (if m \<le> p \<and> p \<le> M - N + m then of_nat (p choose m) else 0)"

definition columns_done :: "nat \<Rightarrow> nat \<Rightarrow> nat \<Rightarrow> weights \<Rightarrow> bool" where
  "columns_done M N k T =
     (shape T (M + 1) (N + 1) \<and>
      (\<forall>i\<le>M. \<forall>j\<le>N. T ! i ! j = (if j < k then binomial_weight M N i j else 0)))"

lemma size_t_diff_plus_le [simp]: "N \<le> M \<Longrightarrow> size_t_diff_plus M N k = M - N + k"
  by (simp add: size_t_diff_plus_def)

lemma first_column_done:
  assumes "N \<le> M"
  shows "\<exists>T'. init_first_column (size_t_diff_plus M N 1) 0
            (replicate (M + 1) (replicate (N + 1) 0)) = Inr T' \<and> columns_done M N 1 T'"
proof -
  let ?Z = "replicate (M + 1) (replicate (N + 1) (0::size_t))"
  have b: "M - N + 1 \<le> M + 1" by simp
  from init_first_column_ok [OF shape_replicate b, of "N + 1" 0 0]
  obtain T' where T': "init_first_column (M - N + 1) 0 ?Z = Inr T'" "shape T' (M + 1) (N + 1)"
    "\<forall>i<M + 1. \<forall>j<N + 1. T' ! i ! j = (if j = 0 \<and> 0 \<le> i \<and> i < M - N + 1 then 1 else ?Z ! i ! j)"
    by auto
  have Z: "?Z ! i ! j = 0" if "i < M + 1" "j < N + 1" for i j
    using that by (simp del: replicate_Suc)
  have "T' ! i ! j = (if j < 1 then binomial_weight M N i j else 0)" if "i \<le> M" "j \<le> N" for i j
  proof -
    have ij: "i < M + 1" "j < N + 1" using that by simp_all
    have "T' ! i ! j = (if j = 0 \<and> 0 \<le> i \<and> i < M - N + 1 then 1 else ?Z ! i ! j)"
      using T'(3) ij by blast
    then show ?thesis using Z [OF ij] by (auto simp: binomial_weight_def)
  qed
  then have "columns_done M N 1 T'"
    unfolding columns_done_def using T'(2) by blast
  then show ?thesis using T'(1) assms by (auto simp del: replicate_Suc)
qed

lemma column_step:
  assumes cd: "columns_done M N m T" and m: "0 < m" "m \<le> N" and NM: "N \<le> M"
  shows "\<exists>T'. fill_column (size_t_diff_plus M N (m + 1)) m m T = Inr T' \<and>
           columns_done M N (m + 1) T'"
proof -
  have sh: "shape T (M + 1) (N + 1)" using cd by (simp add: columns_done_def)
  have old: "T ! i ! j = (if j < m then binomial_weight M N i j else 0)" if "i \<le> M" "j \<le> N" for i j
    using cd that by (simp add: columns_done_def)
  have b: "M - N + m + 1 \<le> M + 1" using m NM by simp
  have mc: "m < N + 1" using m by simp
  from fill_column_ok [OF sh b mc m(1) m(1)]
  obtain T' where T': "fill_column (M - N + m + 1) m m T = Inr T'" "shape T' (M + 1) (N + 1)"
    "\<forall>i<M + 1. \<forall>j<N + 1. j \<noteq> m \<longrightarrow> T' ! i ! j = T ! i ! j"
    "\<forall>i<M + 1. i < m \<or> M - N + m + 1 \<le> i \<longrightarrow> T' ! i ! m = T ! i ! m"
    "\<forall>i. m \<le> i \<and> i < M - N + m + 1 \<longrightarrow> T' ! i ! m = T' ! (i - 1) ! m + T ! (i - 1) ! (m - 1)"
    by blast
  have band: "T' ! i ! m = of_nat (i choose m)" if "m \<le> i" "i \<le> M - N + m" for i
    using that
  proof (induction i)
    case 0
    then show ?case using m by simp
  next
    case (Suc i)
    have iM: "i \<le> M" using Suc.prems m NM by simp
    have prev: "T ! i ! (m - 1) = of_nat (i choose (m - 1))"
      using old [OF iM, of "m - 1"] m Suc.prems by (auto simp: binomial_weight_def)
    have rec: "T' ! Suc i ! m = T' ! i ! m + T ! i ! (m - 1)"
      using T'(5) Suc.prems by simp
    show ?case
    proof (cases "m \<le> i")
      case True
      then have "T' ! i ! m = of_nat (i choose m)" using Suc by simp
      moreover obtain m' where m': "m = Suc m'" using m(1) by (cases m) auto
      ultimately show ?thesis using rec prev by (simp add: add.commute)
    next
      case False
      then have im: "m = Suc i" using Suc.prems by simp
      have "i < M + 1" "i < m" using iM im by simp_all
      then have "T' ! i ! m = T ! i ! m" using T'(4) by blast
      also have "\<dots> = 0" using old [OF iM, of m] m by simp
      finally have z: "T' ! i ! m = 0" .
      have "T ! i ! (m - 1) = 1" using prev im by simp
      then have "T' ! Suc i ! m = 1" using rec z by simp
      then show ?thesis using im by simp
    qed
  qed
  have "T' ! i ! j = (if j < m + 1 then binomial_weight M N i j else 0)" if "i \<le> M" "j \<le> N" for i j
  proof (cases "j = m")
    case False
    then show ?thesis using T'(3) that old [OF that] by auto
  next
    case True
    show ?thesis
    proof (cases "m \<le> i \<and> i \<le> M - N + m")
      case True
      then show ?thesis using band \<open>j = m\<close> by (simp add: binomial_weight_def)
    next
      case False
      then have "T' ! i ! m = T ! i ! m" using T'(4) that by auto
      then show ?thesis using old [OF that] False \<open>j = m\<close> by (auto simp: binomial_weight_def)
    qed
  qed
  then have "columns_done M N (m + 1) T'"
    using T'(2) by (simp add: columns_done_def)
  then show ?thesis using T'(1) NM by auto
qed

lemma fill_columns_ok:
  assumes "columns_done M N m T" "0 < m" "m \<le> N + 1" "N \<le> M"
  shows "\<exists>T'. fill_columns M N m T = Inr T' \<and> columns_done M N (N + 1) T'"
  using assms
proof (induction M N m T rule: fill_columns.induct)
  case (1 M N m T)
  show ?case
  proof (cases "m < N + 1")
    case False
    then have "m = N + 1" using "1.prems" by simp
    moreover have "fill_columns M N m T = Inr T"
      using False by (subst fill_columns.simps) simp
    ultimately show ?thesis using "1.prems" by simp
  next
    case True
    then have mN: "m \<le> N" by simp
    from column_step [OF "1.prems"(1,2) mN "1.prems"(4)]
    obtain T1 where T1: "fill_column (size_t_diff_plus M N (m + 1)) m m T = Inr T1"
      "columns_done M N (m + 1) T1" by blast
    from "1.IH" [OF True T1(1) T1(2)] True "1.prems"
    obtain T' where "fill_columns M N (m + 1) T1 = Inr T'" "columns_done M N (N + 1) T'"
      by auto
    then show ?thesis using True T1(1) by (simp add: fill_columns.simps [of M N m T])
  qed
qed

definition weight_table :: "nat \<Rightarrow> nat \<Rightarrow> weights" where
  "weight_table M N = map (\<lambda>p. map (\<lambda>m. binomial_weight M N p m) [0..<N + 1]) [0..<M + 1]"

lemma length_weight_table: "length (weight_table M N) = M + 1"
  by (simp add: weight_table_def)

lemma weight_table_row:
  "p \<le> M \<Longrightarrow> weight_table M N ! p = map (\<lambda>m. binomial_weight M N p m) [0..<N + 1]"
  unfolding weight_table_def using nth_map [of p "[0..<M + 1]"] by (simp del: upt_Suc)

lemma weight_table_entry:
  "p \<le> M \<Longrightarrow> m \<le> N \<Longrightarrow> weight_table M N ! p ! m = binomial_weight M N p m"
  using nth_map [of m "[0..<N + 1]"] by (simp add: weight_table_row del: upt_Suc)

lemma columns_done_all:
  assumes "columns_done M N (N + 1) T"
  shows "T = weight_table M N"
proof (rule nth_equalityI)
  show l: "length T = length (weight_table M N)"
    using assms by (simp add: columns_done_def shape_def length_weight_table)
  fix i assume i: "i < length T"
  then have iM: "i \<le> M" using assms by (simp add: columns_done_def shape_def)
  show "T ! i = weight_table M N ! i"
  proof (rule nth_equalityI)
    show "length (T ! i) = length (weight_table M N ! i)"
      using assms iM by (simp add: columns_done_def shape_def weight_table_row del: upt_Suc)
    fix j assume "j < length (T ! i)"
    then have jN: "j \<le> N" using assms iM by (simp add: columns_done_def shape_def)
    show "T ! i ! j = weight_table M N ! i ! j"
      using assms iM jN by (simp add: columns_done_def weight_table_entry)
  qed
qed

lemma basis_table:
  assumes "N \<le> M"
  shows "SpinUnresolvedONVBasis M N =
    Inr \<lparr>numberOfOrbitals = M, numberOfElectrons = N, vertex_weights = weight_table M N\<rparr>"
proof -
  from first_column_done [OF assms] obtain T0 where
    T0: "init_first_column (size_t_diff_plus M N 1) 0
            (replicate (M + 1) (replicate (N + 1) 0)) = Inr T0" "columns_done M N 1 T0"
    by blast
  have "\<exists>T. fill_columns M N 1 T0 = Inr T \<and> columns_done M N (N + 1) T"
    by (rule fill_columns_ok [OF T0(2) _ _ assms]) simp_all
  then obtain T where
    T: "fill_columns M N 1 T0 = Inr T" "columns_done M N (N + 1) T" by blast
  have eqT: "T = weight_table M N" by (rule columns_done_all [OF T(2)])
  show ?thesis
    by (simp only: SpinUnresolvedONVBasis_def T0(1) T(1) sum.case eqT)
qed


subsection \<open>Electron counts above the orbital count\<close>

lemma init_first_column_error:
  "init_first_column bound p T = Inl e \<Longrightarrow> e = UndefinedBehaviour"
proof (induction bound p T rule: init_first_column.induct)
  case (1 bound p T)
  then show ?case
    by (simp add: init_first_column.simps [of bound p T] set_weight_def
        split: if_splits sum.splits)
qed

lemma fill_column_error:
  "fill_column bound m p T = Inl e \<Longrightarrow> e = UndefinedBehaviour"
proof (induction bound m p T rule: fill_column.induct)
  case (1 bound m p T)
  then show ?case
    by (simp add: fill_column.simps [of bound m p T] set_weight_def get_weight_def
        split: if_splits sum.splits)
qed

lemma fill_columns_error:
  "fill_columns M N m T = Inl e \<Longrightarrow> e = UndefinedBehaviour"
proof (induction M N m T rule: fill_columns.induct)
  case (1 M N m T)
  then show ?case
    by (auto simp: fill_columns.simps [of M N m T] split: if_splits sum.splits
        dest: fill_column_error)
qed

lemma constructor_error:
  "SpinUnresolvedONVBasis M N = Inl e \<Longrightarrow> e = UndefinedBehaviour"
  by (auto simp: SpinUnresolvedONVBasis_def split: sum.splits
      dest: init_first_column_error fill_columns_error)

lemma fill_columns_one_too_many:
  assumes "N = M + 1" "N < 2 ^ 64" "0 < m"
  shows "fill_columns M N m T = Inr T"
  using assms
proof (induction M N m T rule: fill_columns.induct)
  case (1 M N m T)
  show ?case
  proof (cases "m < N + 1")
    case False
    then show ?thesis by (simp add: fill_columns.simps [of M N m T])
  next
    case True
    have "size_t_diff_plus M N (m + 1) = (2 ^ 64 + m) mod 2 ^ 64"
      using "1.prems" by (simp add: size_t_diff_plus_def)
    also have "\<dots> = m"
      using True "1.prems" by simp
    finally have b: "size_t_diff_plus M N (m + 1) = m" .
    have fc: "fill_column (size_t_diff_plus M N (m + 1)) m m T = Inr T"
      unfolding b by (simp add: fill_column.simps [of m m m T])
    have "fill_columns M N (m + 1) T = Inr T"
      using "1.IH" [OF True fc] "1.prems" by simp
    then show ?thesis
      using True fc by (simp add: fill_columns.simps [of M N m T])
  qed
qed

lemma basis_one_too_many:
  assumes "M + 1 < 2 ^ 64"
  shows "SpinUnresolvedONVBasis M (M + 1) =
    Inr \<lparr>numberOfOrbitals = M, numberOfElectrons = M + 1,
         vertex_weights = replicate (M + 1) (replicate (M + 2) 0)\<rparr>"
proof -
  have b: "size_t_diff_plus M (M + 1) 1 = 0"
    by (simp add: size_t_diff_plus_def)
  have i: "init_first_column 0 0 T = Inr T" for T
    by (simp add: init_first_column.simps [of 0 0 T])
  have f: "fill_columns M (M + 1) 1 T = Inr T" for T
    by (rule fill_columns_one_too_many) (use assms in simp_all)
  have "M + 1 + 1 = M + 2" by simp
  then show ?thesis
    by (simp only: SpinUnresolvedONVBasis_def b i f sum.case)
qed

lemma init_first_column_overrun:
  assumes "shape T r c" "p \<le> r" "r < bound"
  shows "init_first_column bound p T = Inl UndefinedBehaviour"
  using assms
proof (induction bound p T rule: init_first_column.induct)
  case (1 bound p T)
  have pb: "p < bound" using "1.prems" by simp
  show ?case
  proof (cases "p < r")
    case False
    then have "set_weight T p 0 1 = Inl UndefinedBehaviour"
      using "1.prems" by (simp add: set_weight_def shape_def)
    then show ?thesis
      using pb by (simp add: init_first_column.simps [of bound p T])
  next
    case True
    show ?thesis
    proof (cases "set_weight T p 0 1")
      case (Inl e)
      then have "e = UndefinedBehaviour"
        by (simp add: set_weight_def split: if_splits)
      then show ?thesis
        using pb Inl by (simp add: init_first_column.simps [of bound p T])
    next
      case (Inr T')
      then have T': "T' = T[p := (T ! p)[0 := 1]]"
        by (simp add: set_weight_def split: if_splits)
      have "shape T' r c"
        using "1.prems"(1) True unfolding T' by (auto simp: shape_def nth_list_update)
      then have "init_first_column bound (p + 1) T' = Inl UndefinedBehaviour"
        using "1.IH" [OF pb Inr] True "1.prems" by simp
      then show ?thesis
        using pb Inr by (simp add: init_first_column.simps [of bound p T])
    qed
  qed
qed

lemma basis_too_many_electrons:
  assumes "M + 1 < N" "N < 2 ^ 64"
  shows "SpinUnresolvedONVBasis M N = Inl UndefinedBehaviour"
proof -
  have "size_t_diff_plus M N 1 = (2 ^ 64 - (N - M) + 1) mod 2 ^ 64"
    using assms by (simp add: size_t_diff_plus_def)
  also have "\<dots> = 2 ^ 64 - (N - M) + 1"
    using assms by simp
  finally have b: "size_t_diff_plus M N 1 = 2 ^ 64 - (N - M) + 1" .
  have "M + 1 < size_t_diff_plus M N 1"
    unfolding b using assms by simp
  then have "init_first_column (size_t_diff_plus M N 1) 0
     (replicate (M + 1) (replicate (N + 1) 0)) = Inl UndefinedBehaviour"
    by (intro init_first_column_overrun [OF shape_replicate]) simp_all
  then show ?thesis
    by (simp only: SpinUnresolvedONVBasis_def sum.case)
qed

section \<open>Mirrored coupling entries\<close>

text \<open>A list of triplets is mirrored when it holds \<open>(J, I, s)\<close> with every \<open>(I, J, s)\<close>.\<close>

definition mirrored :: "triplet list \<Rightarrow> bool" where
  "mirrored ts = (\<forall>(I, J, s) \<in> set ts. (J, I, s) \<in> set ts)"

definition all_mirrored :: "triplet list list \<Rightarrow> bool" where
  "all_mirrored entries = (\<forall>ts \<in> set entries. mirrored ts)"

lemma mirrored_diagonal: "mirrored ts \<Longrightarrow> mirrored (ts @ [(I, I, s)])"
  by (auto simp: mirrored_def)

lemma mirrored_pair: "mirrored ts \<Longrightarrow> mirrored (ts @ [(I, J, s)] @ [(J, I, s)])"
  by (auto simp: mirrored_def)

lemma all_mirrored_update:
  "all_mirrored entries \<Longrightarrow> mirrored ts \<Longrightarrow> all_mirrored (entries[k := ts])"
  by (auto simp: all_mirrored_def dest: set_update_subset_insert [THEN subsetD])

lemma all_mirrored_nth: "all_mirrored entries \<Longrightarrow> k < length entries \<Longrightarrow> mirrored (entries ! k)"
  by (simp add: all_mirrored_def)

lemma emplace_back_diagonal:
  assumes "emplace_back entries k (I, I, s) = Inr entries'" "all_mirrored entries"
  shows "all_mirrored entries'"
proof -
  from assms(1) have k: "k < length entries" and e: "entries' = entries[k := entries ! k @ [(I, I, s)]]"
    by (auto simp: emplace_back_def split: if_splits)
  show ?thesis
    unfolding e
    by (intro all_mirrored_update assms(2) mirrored_diagonal all_mirrored_nth k)
qed

lemma emplace_back_pair:
  assumes "emplace_back entries k (I, J, s) = Inr entries1"
    and "emplace_back entries1 k (J, I, s) = Inr entries2"
    and "all_mirrored entries"
  shows "all_mirrored entries2"
proof -
  from assms(1) have k: "k < length entries"
    and e1: "entries1 = entries[k := entries ! k @ [(I, J, s)]]"
    by (auto simp: emplace_back_def split: if_splits)
  from assms(2) have e2: "entries2 = entries1[k := entries1 ! k @ [(J, I, s)]]"
    by (auto simp: emplace_back_def split: if_splits)
  have "entries2 = entries[k := entries ! k @ [(I, J, s)] @ [(J, I, s)]]"
    unfolding e2 e1 using k by simp
  then show ?thesis
    using all_mirrored_update [OF assms(3) mirrored_pair [OF all_mirrored_nth [OF assms(3) k]]]
    by simp
qed

lemma creation_loop_mirrored:
  "creation_loop B onv I p entries address q e2 sign_e2 = Inr entries' \<Longrightarrow>
   all_mirrored entries \<Longrightarrow> all_mirrored entries'"
proof (induction B onv I p entries address q e2 sign_e2 rule: creation_loop.induct)
  case (1 B onv I p entries address q e2 sign_e2)
  show ?case
  proof (cases "q < numberOfOrbitals B")
    case False
    then have "entries' = entries"
      using "1.prems"(1) by (subst (asm) creation_loop.simps) simp
    then show ?thesis using "1.prems"(2) by simp
  next
    case True
    define J where "J = address + vertexWeight B q e2"
    define k where "k = pair_index (numberOfOrbitals B) p q"
    from "1.prems"(1) True obtain entries1 entries2 address' q' e2' sign_e2' where
      s1: "emplace_back entries k (I, J, sign_e2) = Inr entries1"
      and s2: "emplace_back entries1 k (J, I, sign_e2) = Inr entries2"
      and s3: "shiftUntilNextUnoccupiedOrbital B onv address (q + 1) e2 sign_e2 =
                Inr (address', q', e2', sign_e2')"
      and s4: "creation_loop B onv I p entries2 address' q' e2' sign_e2' = Inr entries'"
      by (subst (asm) creation_loop.simps)
         (auto simp: Let_def J_def k_def split: sum.splits prod.splits)
    have m2: "all_mirrored entries2"
      by (rule emplace_back_pair [OF s1 s2 "1.prems"(2)])
    show ?thesis
      by (rule "1.IH" [OF True J_def k_def s1 s2 s3 refl refl refl s4 m2])
  qed
qed


lemma annihilation_loop_mirrored:
  "annihilation_loop B onv I e1 entries = Inr entries' \<Longrightarrow>
   all_mirrored entries \<Longrightarrow> all_mirrored entries'"
proof (induction B onv I e1 entries rule: annihilation_loop.induct)
  case (1 B onv I e1 entries)
  show ?case
  proof (cases "e1 < numberOfElectrons B")
    case False
    then have "entries' = entries"
      using "1.prems"(1) by (subst (asm) annihilation_loop.simps) simp
    then show ?thesis using "1.prems"(2) by simp
  next
    case True
    from "1.prems"(1) True obtain p entries1 address' q e2 sign_e2 entries2 where
      s0: "occupationIndexOf onv e1 = Inr p"
      and s1: "emplace_back entries (pair_index (numberOfOrbitals B) p p) (I, I, 1) = Inr entries1"
      and s2: "shiftUntilNextUnoccupiedOrbital B onv (I - vertexWeight B p (e1 + 1)) (p + 1) (e1 + 1) 1 =
                Inr (address', q, e2, sign_e2)"
      and s3: "creation_loop B onv I p entries1 address' q e2 sign_e2 = Inr entries2"
      and s4: "annihilation_loop B onv I (e1 + 1) entries2 = Inr entries'"
      by (subst (asm) annihilation_loop.simps)
         (auto simp: Let_def split: sum.splits prod.splits)
    have m1: "all_mirrored entries1"
      by (rule emplace_back_diagonal [OF s1 "1.prems"(2)])
    have m2: "all_mirrored entries2"
      by (rule creation_loop_mirrored [OF s3 m1])
    show ?thesis
      by (rule "1.IH" [OF True s0 refl s1 s2 refl refl refl s3 s4 m2])
  qed
qed

lemma address_loop_mirrored:
  "address_loop B dim I onv entries = Inr entries' \<Longrightarrow>
   all_mirrored entries \<Longrightarrow> all_mirrored entries'"
proof (induction B dim I onv entries rule: address_loop.induct)
  case (1 B dim I onv entries)
  show ?case
  proof (cases "I < dim")
    case False
    then have "entries' = entries"
      using "1.prems"(1) by (subst (asm) address_loop.simps) simp
    then show ?thesis using "1.prems"(2) by simp
  next
    case True
    from "1.prems"(1) True obtain entries1 where
      s1: "annihilation_loop B onv (of_nat I) 0 entries = Inr entries1"
      by (subst (asm) address_loop.simps) (auto split: sum.splits)
    have m1: "all_mirrored entries1"
      by (rule annihilation_loop_mirrored [OF s1 "1.prems"(2)])
    show ?thesis
    proof (cases "I < dim - 1")
      case last: False
      have "address_loop B dim (I + 1) onv entries1 = Inr entries'"
        using "1.prems"(1) True s1 last by (subst (asm) address_loop.simps) simp
      then show ?thesis
        using "1.IH"(2) [OF True s1 last _ m1] by simp
    next
      case more: True
      from "1.prems"(1) True s1 more obtain onv' where
        n: "transformONVToNextPermutation onv = Inr onv'"
        and s2: "address_loop B dim (I + 1) onv' entries1 = Inr entries'"
        by (subst (asm) address_loop.simps) (auto split: sum.splits)
      show ?thesis
        by (rule "1.IH"(1) [OF True s1 more n s2 m1])
    qed
  qed
qed

lemma all_mirrored_replicate: "all_mirrored (replicate n [])"
  by (simp add: all_mirrored_def mirrored_def)

lemma couplings_mirrored:
  assumes "calculateOneElectronCouplings binomial_coefficient B = Inr matrices"
  shows "all_mirrored (map triplets matrices)"
proof (cases "numberOfElectrons B = 0")
  case True
  then obtain dim n where "matrices = replicate n \<lparr>rows = dim, cols = dim, triplets = []\<rparr>"
    using assms by (auto simp: calculateOneElectronCouplings_def Let_def split: sum.splits)
  then show ?thesis
    by (simp add: all_mirrored_replicate)
next
  case False
  then obtain dim onv entries n where
    l: "address_loop B (unat dim) 0 onv (replicate n []) = Inr entries"
    and m: "matrices = map (\<lambda>ts. \<lparr>rows = dim, cols = dim, triplets = ts\<rparr>) entries"
    using assms by (auto simp: calculateOneElectronCouplings_def Let_def split: sum.splits)
  have "all_mirrored entries"
    by (rule address_loop_mirrored [OF l all_mirrored_replicate])
  moreover have "map triplets matrices = entries"
    unfolding m by (simp add: comp_def)
  ultimately show ?thesis by simp
qed

lemma couplings_2_1:
  "(case SpinUnresolvedONVBasis 2 1 of
      Inl e \<Rightarrow> False
    | Inr B \<Rightarrow>
        (case constructONVFromAddress B 0 of
           Inl e \<Rightarrow> False
         | Inr onv \<Rightarrow>
             address_loop B 2 0 onv (replicate 3 []) =
               Inr [[(0, 0, 1)], [(0, 1, 1), (1, 0, 1)], [(1, 1, 1)]]))"
  by code_simp

section \<open>Configurations and their coupling counts\<close>

text \<open>
  The configurations of a basis of \<open>M\<close> orbitals and \<open>N\<close> electrons: the bit strings with
  exactly \<open>N\<close> set bits, all among the lowest \<open>M\<close> bits.
\<close>

definition valid_onv :: "nat \<Rightarrow> nat \<Rightarrow> size_t \<Rightarrow> bool" where
  "valid_onv M N onv = (popcount onv = N \<and> drop_bit M onv = 0)"

lemma drop_bit_zero_iff:
  fixes w :: size_t
  shows "drop_bit M w = 0 \<longleftrightarrow> (\<forall>i. bit w i \<longrightarrow> i < M)"
proof
  assume z: "drop_bit M w = 0"
  show "\<forall>i. bit w i \<longrightarrow> i < M"
  proof (intro allI impI)
    fix i assume b: "bit w i"
    show "i < M"
    proof (rule ccontr)
      assume "\<not> i < M"
      then have "bit (drop_bit M w) (i - M)"
        using b by (simp add: bit_drop_bit_eq)
      then show False using z by simp
    qed
  qed
next
  assume a: "\<forall>i. bit w i \<longrightarrow> i < M"
  show "drop_bit M w = 0"
  proof (rule bit_eqI)
    fix n
    show "bit (drop_bit M w) n = bit (0 :: size_t) n"
      using a by (auto simp: bit_drop_bit_eq)
  qed
qed











definition configurations :: "nat \<Rightarrow> nat \<Rightarrow> size_t set" where
  "configurations M N = {onv. valid_onv M N onv}"


lemma drop_bit_Suc_zero_iff:
  fixes w :: size_t
  shows "drop_bit (Suc M) w = 0 \<longleftrightarrow> drop_bit M w = 0 \<or> (bit w M \<and> drop_bit M (unset_bit M w) = 0)"
  by (auto simp: drop_bit_zero_iff bit_unset_bit_iff less_Suc_eq)


















lemma finite_configurations [simp]: "finite (configurations M N)"
  by simp


lemma binomial_Suc_le_pow2: "Suc m choose N \<le> 2 ^ m"
proof (cases N)
  case 0
  then show ?thesis by simp
next
  case (Suc k)
  show ?thesis
  proof (cases "Suc k \<le> m")
    case True
    have "(\<Sum>j \<in> {k, Suc k}. m choose j) \<le> (\<Sum>j\<le>m. m choose j)"
      by (rule sum_mono2) (use True in auto)
    then show ?thesis
      using Suc by (simp add: choose_row_sum)
  next
    case False
    then have z: "m choose Suc k = 0" by (simp add: binomial_eq_0)
    have "Suc m choose Suc k = (m choose k) + (m choose Suc k)" by simp
    also have "\<dots> = m choose k" using z by simp
    also have "\<dots> \<le> 2 ^ m" by (rule binomial_le_pow2)
    finally show ?thesis using Suc by simp
  qed
qed

lemma binomial_below_size_t:
  assumes "M \<le> 64"
  shows "M choose N < 2 ^ 64"
proof (cases M)
  case 0
  then show ?thesis by (cases N) simp_all
next
  case (Suc m)
  have "Suc m choose N \<le> 2 ^ m"
    by (rule binomial_Suc_le_pow2)
  also have "\<dots> < (2 :: nat) ^ 64"
    using assms Suc by (intro power_strict_increasing) simp_all
  finally show ?thesis using Suc by simp
qed

section \<open>Doubles and odd integers\<close>

lemma double_trunc_not_large_odd:
  assumes d: "is_double d" and C: "2 ^ 53 \<le> C" "odd C"
  shows "double_trunc d \<noteq> C"
proof
  assume t: "double_trunc d = C"
  have m: "\<bar>significand d\<bar> < 2 ^ 53"
    using d by (simp add: is_double_def)
  show False
  proof (cases "0 \<le> exponent d")
    case False
    have nn: "0 \<le> \<bar>significand d\<bar> div 2 ^ nat (- exponent d)"
      by (simp add: pos_imp_zdiv_nonneg_iff)
    have "\<bar>double_trunc d\<bar> =
        \<bar>sgn (significand d)\<bar> * \<bar>\<bar>significand d\<bar> div 2 ^ nat (- exponent d)\<bar>"
      using False by (simp only: double_trunc_def abs_mult if_False)
    also have "\<dots> \<le> 1 * \<bar>\<bar>significand d\<bar> div 2 ^ nat (- exponent d)\<bar>"
      by (intro mult_right_mono) (simp_all add: abs_sgn_eq)
    also have "\<dots> = \<bar>significand d\<bar> div 2 ^ nat (- exponent d)"
      using nn by simp
    also have "\<dots> \<le> \<bar>significand d\<bar> div 1"
      by (rule zdiv_mono2) simp_all
    also have "\<dots> = \<bar>significand d\<bar>"
      by simp
    finally show False using m t C(1) by simp
  next
    case True
    then have v: "C = significand d * 2 ^ nat (exponent d)"
      using t by (simp add: double_trunc_def)
    show False
    proof (cases "nat (exponent d)")
      case 0
      then show False using v m C(1) by simp
    next
      case (Suc k)
      then have "even C" using v by simp
      then show False using C(2) by simp
    qed
  qed
qed

section \<open>Properties\<close>

lemma basis_fields:
  "SpinUnresolvedONVBasis M N = Inr B \<Longrightarrow> numberOfOrbitals B = M \<and> numberOfElectrons B = N"
  by (auto simp: SpinUnresolvedONVBasis_def split: sum.splits)

lemma dimension_basis:
  "SpinUnresolvedONVBasis M N = Inr B \<Longrightarrow> M choose N < 2 ^ 64 \<Longrightarrow>
   dimension B = Inr (of_nat (M choose N))"
  by (simp add: dimension_def basis_fields)

subsection \<open>The address round trip at 32 orbitals\<close>

text \<open>
  C1. The round trip \<open>representationOf (addressOf c) = c\<close> is claimed for every basis with
  \<open>N \<le> M\<close>. With 32 orbitals and one electron, the configuration \<open>c = 2 ^ 31\<close> (orbital 31
  occupied) has address 31, and \<open>representationOf\<close> at address 31 sets bit 31 with the
  32-bit \<open>int\<close> shift \<open>(1) << 31\<close>, whose conversion to \<open>size_t\<close> also sets the bits 32
  to 63: the result is \<open>0xFFFFFFFF80000000\<close>, not \<open>c\<close>.
\<close>

theorem representationOf_addressOf_32_orbitals:
  "(case SpinUnresolvedONVBasis 32 1 of
      Inl e \<Rightarrow> False
    | Inr B \<Rightarrow>
        popcount (2 ^ 31) = 1 \<and> drop_bit 32 (2 ^ 31 :: size_t) = 0 \<and>
        addressOf B (2 ^ 31) = 31 \<and>
        representationOf B (addressOf B (2 ^ 31)) = Inr 0xFFFFFFFF80000000)"
  by code_simp

subsection \<open>The vertex weights\<close>




subsection \<open>Enumeration with 32 electrons\<close>

text \<open>
  C3. \<open>forEach\<close> is claimed to pass configurations with exactly \<open>N\<close> set bits. With
  32 orbitals and 32 electrons the dimension is 1 and the single call receives the ONV
  built by \<open>representationOf\<close> at address 0; the \<open>int\<close> shift of that function sets bit 31
  together with the bits 32 to 63, so the ONV passed to the callback has 64 set bits.
\<close>

theorem forEach_32_electrons:
  "(case SpinUnresolvedONVBasis 32 32 of
      Inl e \<Rightarrow> False
    | Inr B \<Rightarrow>
        forEach_calls B = Inr [(0xFFFFFFFFFFFFFFFF, 0)] \<and>
        popcount 0xFFFFFFFFFFFFFFFF = 64)"
proof -
  have rep: "(case SpinUnresolvedONVBasis 32 32 of
      Inl e \<Rightarrow> False
    | Inr B \<Rightarrow> representationOf B 0 = Inr 0xFFFFFFFFFFFFFFFF)"
    by code_simp
  have pc: "popcount 0xFFFFFFFFFFFFFFFF = 64"
    by code_simp
  show ?thesis
  proof (cases "SpinUnresolvedONVBasis 32 32")
    case (Inl e)
    with rep show ?thesis by simp
  next
    case (Inr B)
    with rep have r: "representationOf B 0 = Inr 0xFFFFFFFFFFFFFFFF"
      by simp
    have d: "dimension B = Inr 1"
      using dimension_basis [OF Inr] by simp
    have "forEach_calls B = Inr [(0xFFFFFFFFFFFFFFFF, 0)]"
      by (simp add: forEach_calls_def forEach_def d constructONVFromAddress_def r
          forEach_loop.simps [of _ "Suc 0" 0] forEach_loop.simps [of _ "Suc 0" "Suc 0"])
    with pc Inr show ?thesis by simp
  qed
qed

subsection \<open>Hermiticity of the recorded couplings\<close>

text \<open>
  C4. In every matrix returned by \<open>calculateOneElectronCouplings\<close>, an off-diagonal
  triplet \<open>(I, J, sign)\<close> comes with the triplet \<open>(J, I, sign)\<close> of the same sign, in the
  matrix of the same orbital pair.
\<close>

theorem one_electron_couplings_hermitian:
  assumes "calculateOneElectronCouplings binomial_coefficient B = Inr matrices"
    and "k < length matrices"
    and "(I, J, sign) \<in> set (triplets (matrices ! k))"
    and "I \<noteq> J"
  shows "(J, I, sign) \<in> set (triplets (matrices ! k))"
proof -
  have "all_mirrored (map triplets matrices)"
    by (rule couplings_mirrored [OF assms(1)])
  then have "mirrored (triplets (matrices ! k))"
    using assms(2) by (auto simp: all_mirrored_def)
  then show ?thesis
    using assms(3) by (auto simp: mirrored_def)
qed

theorem one_electron_couplings_hermitian_witness:
  "(case SpinUnresolvedONVBasis 2 1 of
      Inl e \<Rightarrow> False
    | Inr B \<Rightarrow>
        calculateOneElectronCouplings
            (\<lambda>m n. Inr \<lparr>significand = int (m choose n), exponent = 0\<rparr>) B =
          Inr [\<lparr>rows = 2, cols = 2, triplets = [(0, 0, 1)]\<rparr>,
               \<lparr>rows = 2, cols = 2, triplets = [(0, 1, 1), (1, 0, 1)]\<rparr>,
               \<lparr>rows = 2, cols = 2, triplets = [(1, 1, 1)]\<rparr>]) \<and>
   (1 :: nat) < length [\<lparr>rows = 2, cols = 2, triplets = [(0, 0, 1)]\<rparr>,
               \<lparr>rows = 2, cols = 2, triplets = [(0, 1, 1), (1, 0, 1)]\<rparr>,
               \<lparr>rows = 2, cols = 2, triplets = [(1, 1, 1)]\<rparr>] \<and>
   (0, 1, 1) \<in> set (triplets ([\<lparr>rows = 2, cols = 2, triplets = [(0, 0, 1)]\<rparr>,
               \<lparr>rows = 2, cols = 2, triplets = [(0, 1, 1), (1, 0, 1)]\<rparr>,
               \<lparr>rows = 2, cols = 2, triplets = [(1, 1, 1)]\<rparr>] ! 1)) \<and>
   (0 :: size_t) \<noteq> 1 \<and>
   (1, 0, 1) \<in> set (triplets ([\<lparr>rows = 2, cols = 2, triplets = [(0, 0, 1)]\<rparr>,
               \<lparr>rows = 2, cols = 2, triplets = [(0, 1, 1), (1, 0, 1)]\<rparr>,
               \<lparr>rows = 2, cols = 2, triplets = [(1, 1, 1)]\<rparr>] ! 1))"
proof -
  let ?ms = "[\<lparr>rows = 2, cols = 2, triplets = [(0, 0, 1)]\<rparr>,
               \<lparr>rows = 2, cols = 2, triplets = [(0, 1, 1), (1, 0, 1)]\<rparr>,
               \<lparr>rows = 2, cols = 2, triplets = [(1, 1, 1)]\<rparr>] :: SparseMatrix list"
  let ?bc = "\<lambda>m n. Inr \<lparr>significand = int (m choose n), exponent = 0\<rparr> :: error + double"
  obtain B where B: "SpinUnresolvedONVBasis 2 1 = Inr B"
    using couplings_2_1 by (cases "SpinUnresolvedONVBasis 2 1") auto
  have s1: "(case constructONVFromAddress B 0 of
           Inl e \<Rightarrow> False
         | Inr onv \<Rightarrow>
             address_loop B 2 0 onv (replicate 3 []) =
               Inr [[(0, 0, 1)], [(0, 1, 1), (1, 0, 1)], [(1, 1, 1)]])"
    using couplings_2_1 unfolding B sum.case .
  then obtain onv where onv: "constructONVFromAddress B 0 = Inr onv"
    by (cases "constructONVFromAddress B 0") auto
  have loop: "address_loop B 2 0 onv (replicate 3 []) =
               Inr [[(0, 0, 1)], [(0, 1, 1), (1, 0, 1)], [(1, 1, 1)]]"
    using s1 unfolding onv sum.case .
  have f: "numberOfOrbitals B = 2" "numberOfElectrons B = 1"
    using basis_fields [OF B] by simp_all
  have d: "dimension B = Inr 2"
    using dimension_basis [OF B] by simp
  have cd: "calculateDimension ?bc (Suc 0) 0 = Inr 1"
    by (simp add: calculateDimension_def convert_size_t_double_def double_trunc_def)
  have pc: "pair_count 2 = 3"
    by (simp add: pair_count_def)
  have c: "calculateOneElectronCouplings ?bc B = Inr ?ms"
    by (simp add: calculateOneElectronCouplings_def f d cd onv pc loop)
  have h2: "1 < length ?ms" by simp
  have h3: "(0, 1, 1) \<in> set (triplets (?ms ! 1))" by simp
  have h4: "(0 :: size_t) \<noteq> 1" by simp
  have "(1, 0, 1) \<in> set (triplets (?ms ! 1))"
    by (rule one_electron_couplings_hermitian [OF c h2 h3 h4])
  then show ?thesis
    unfolding B using c h2 h3 h4 by simp
qed

subsection \<open>The number of one-electron couplings\<close>





subsection \<open>The DIIS step\<close>

lemma set_coefficient_nth:
  assumes "length B = r" "\<forall>a<r. length (B ! a) = c" "i < r" "j < c"
  shows "length (set_coefficient B i j v) = r"
    and "\<forall>a<r. length (set_coefficient B i j v ! a) = c"
    and "a < r \<Longrightarrow> b < c \<Longrightarrow>
         set_coefficient B i j v ! a ! b = (if a = i \<and> b = j then v else B ! a ! b)"
  using assms by (auto simp: set_coefficient_def nth_list_update)

lemma B_row_loop_nth:
  assumes "length B = r" "\<forall>a<r. length (B ! a) = c" "i < r" "k \<le> c"
  shows "length (fold (\<lambda>j B. set_coefficient B i j (g j)) [0..<k] B) = r \<and>
         (\<forall>a<r. length (fold (\<lambda>j B. set_coefficient B i j (g j)) [0..<k] B ! a) = c) \<and>
         (\<forall>a<r. \<forall>b<c. fold (\<lambda>j B. set_coefficient B i j (g j)) [0..<k] B ! a ! b =
                   (if a = i \<and> b < k then g b else B ! a ! b))"
  using assms(4)
proof (induction k)
  case 0
  then show ?case using assms(1,2) by simp
next
  case (Suc k)
  let ?B = "fold (\<lambda>j B. set_coefficient B i j (g j)) [0..<k] B"
  have IH: "length ?B = r" "\<forall>a<r. length (?B ! a) = c"
    "\<forall>a<r. \<forall>b<c. ?B ! a ! b = (if a = i \<and> b < k then g b else B ! a ! b)"
    using Suc.IH Suc.prems by simp_all
  have k: "k < c" using Suc.prems by simp
  have step: "fold (\<lambda>j B. set_coefficient B i j (g j)) [0..<Suc k] B =
              set_coefficient ?B i k (g k)"
    by simp
  note s = set_coefficient_nth [OF IH(1,2) assms(3) k, where v = "g k"]
  show ?case
    unfolding step using s(1,2) s(3) IH(3) by (auto simp: less_Suc_eq)
qed

lemma B_loop_nth:
  assumes "length B = r" "\<forall>a<r. length (B ! a) = c" "k \<le> r" "n \<le> c"
  shows "length (fold (\<lambda>i B. fold (\<lambda>j B. set_coefficient B i j (g i j)) [0..<n] B) [0..<k] B) = r \<and>
         (\<forall>a<r. length (fold (\<lambda>i B. fold (\<lambda>j B. set_coefficient B i j (g i j)) [0..<n] B)
                           [0..<k] B ! a) = c) \<and>
         (\<forall>a<r. \<forall>b<c. fold (\<lambda>i B. fold (\<lambda>j B. set_coefficient B i j (g i j)) [0..<n] B)
                           [0..<k] B ! a ! b =
                   (if a < k \<and> b < n then g a b else B ! a ! b))"
  using assms(3)
proof (induction k)
  case 0
  then show ?case using assms(1,2) by simp
next
  case (Suc k)
  let ?row = "\<lambda>i B. fold (\<lambda>j B. set_coefficient B i j (g i j)) [0..<n] B"
  let ?B = "fold ?row [0..<k] B"
  have IH: "length ?B = r" "\<forall>a<r. length (?B ! a) = c"
    "\<forall>a<r. \<forall>b<c. ?B ! a ! b = (if a < k \<and> b < n then g a b else B ! a ! b)"
    using Suc.IH Suc.prems by simp_all
  have k: "k < r" using Suc.prems by simp
  have step: "fold ?row [0..<Suc k] B = ?row k ?B"
    by simp
  note s = B_row_loop_nth [OF IH(1,2) k assms(4), where g = "g k"]
  show ?case
    unfolding step using s IH(3) by (auto simp: less_Suc_eq)
qed

lemma augmented_B_value:
  "augmented_B ops errors n =
     map (\<lambda>i. map (\<lambda>j.
            if i < n \<and> j < n
            then mat_trace ops (mat_mul ops (mat_transpose ops (errors ! i)) (errors ! j))
            else if i = n \<and> j = n then double_of_int 0 else double_of_int (- 1))
          [0..<n + 1]) [0..<n + 1]"
proof -
  let ?g = "\<lambda>i j. mat_trace ops (mat_mul ops (mat_transpose ops (errors ! i)) (errors ! j))"
  let ?init = "replicate (n + 1) (replicate (n + 1) (double_of_int (- 1)))"
  let ?corner = "set_coefficient ?init n n (double_of_int 0)"
  let ?filled = "fold (\<lambda>i B. fold (\<lambda>j B. set_coefficient B i j (?g i j)) [0..<n] B) [0..<n] ?corner"
  have l0: "length ?init = n + 1" "\<forall>a<n + 1. length (?init ! a) = n + 1"
    by (simp_all del: replicate_Suc)
  have n: "n < n + 1" by simp
  note s1 = set_coefficient_nth [OF l0 n n, where v = "double_of_int 0"]
  have B1: "\<forall>a<n + 1. \<forall>b<n + 1. ?corner ! a ! b =
        (if a = n \<and> b = n then double_of_int 0 else double_of_int (- 1))"
    using s1(3) by (simp del: replicate_Suc)
  have le: "n \<le> n + 1" by simp
  note s = B_loop_nth [OF s1(1,2) le le, where g = ?g]
  have len: "length ?filled = n + 1" and rows: "\<forall>a<n + 1. length (?filled ! a) = n + 1"
    and ent: "\<forall>a<n + 1. \<forall>b<n + 1. ?filled ! a ! b = (if a < n \<and> b < n then ?g a b else ?corner ! a ! b)"
    using s by blast+
  have eq: "augmented_B ops errors n = ?filled"
    by (simp add: augmented_B_def B_loop_def B_row_loop_def)
  show ?thesis
    unfolding eq
  proof (rule nth_equalityI)
    show "length ?filled = length (map (\<lambda>i. map (\<lambda>j.
            if i < n \<and> j < n then ?g i j
            else if i = n \<and> j = n then double_of_int 0 else double_of_int (- 1))
          [0..<n + 1]) [0..<n + 1])"
      using len by simp
  next
    fix a assume "a < length ?filled"
    then have a: "a < n + 1" using len by simp
    show "?filled ! a = map (\<lambda>i. map (\<lambda>j.
            if i < n \<and> j < n then ?g i j
            else if i = n \<and> j = n then double_of_int 0 else double_of_int (- 1))
          [0..<n + 1]) [0..<n + 1] ! a"
    proof (rule nth_equalityI)
      show "length (?filled ! a) = length (map (\<lambda>i. map (\<lambda>j.
            if i < n \<and> j < n then ?g i j
            else if i = n \<and> j = n then double_of_int 0 else double_of_int (- 1))
          [0..<n + 1]) [0..<n + 1] ! a)"
        using rows a nth_map [of a "[0..<n + 1]"] by (simp del: upt_Suc)
    next
      fix b assume "b < length (?filled ! a)"
      then have b: "b < n + 1" using rows a by simp
      have "?filled ! a ! b = (if a < n \<and> b < n then ?g a b else ?corner ! a ! b)"
        using ent a b by blast
      also have "\<dots> = (if a < n \<and> b < n then ?g a b
            else if a = n \<and> b = n then double_of_int 0 else double_of_int (- 1))"
        using B1 a b by simp
      finally show "?filled ! a ! b = map (\<lambda>i. map (\<lambda>j.
            if i < n \<and> j < n then ?g i j
            else if i = n \<and> j = n then double_of_int 0 else double_of_int (- 1))
          [0..<n + 1]) [0..<n + 1] ! a ! b"
        using a b nth_map [of a "[0..<n + 1]"] nth_map [of b "[0..<n + 1]"]
        by (simp del: upt_Suc)
    qed
  qed
qed

lemma augmented_b_value:
  "augmented_b n = map (\<lambda>i. if i = n then double_of_int (- 1) else double_of_int 0) [0..<n + 1]"
  by (rule nth_equalityI)
     (auto simp: augmented_b_def nth_list_update simp del: upt_Suc replicate_Suc)

lemma fock_combination_loop_value:
  assumes "\<forall>i\<in>set indices. i < length y \<and> i < length focks"
  shows "fock_combination_loop ops y focks indices f =
         Inr (foldl (\<lambda>f i. mat_add ops f (mat_scale ops (y ! i) (focks ! i))) f indices)"
  using assms by (induction indices arbitrary: f) simp_all

text \<open>The two deques grow and shrink together.\<close>

lemma calculateNewFockMatrix_deques:
  assumes "length (fock_matrix_deque solver) = length (error_matrix_deque solver)"
    and "calculateNewFockMatrix ops solver D_AO = Inr (f, solver')"
  shows "length (fock_matrix_deque solver') = length (error_matrix_deque solver')"
  using assms
  by (auto simp: calculateNewFockMatrix_def Let_def collapse_subspace_def
      split: if_splits sum.splits)

text \<open>
  C6. Let \<open>n\<close> be the number of error matrices once the current pair is appended. If \<open>n\<close> is
  below the minimum subspace dimension, the function returns the plainly computed Fock
  matrix, for every solver of linear systems (none is called) and without an error. If
  \<open>n\<close> is at least the minimum, and the two deques have the same length and the solver
  returns a vector of the size of its right-hand side, the function returns the sum over
  \<open>i < n\<close> of \<open>y(i)\<close> times the \<open>i\<close>-th stored Fock matrix, accumulated from the zero matrix,
  where \<open>y\<close> is what the QR solver returns for the system of \<open>n + 1\<close> equations with
  \<open>B(i, j) = trace(e_i^T e_j)\<close> for \<open>i, j < n\<close>, the border entries -1, the corner
  \<open>B(n, n) = 0\<close>, and the right-hand side 0 except for -1 in its last entry.
\<close>

theorem diis_step_by_subspace_size:
  "(let F = calculateRHFAOFockMatrix ops D_AO (ham_par solver);
        S = get_S ops (ham_par solver);
        error_matrix = mat_sub ops (mat_mul ops (mat_mul ops F D_AO) S)
                                   (mat_mul ops (mat_mul ops S D_AO) F);
        focks = fock_matrix_deque solver @ [F];
        errors = error_matrix_deque solver @ [error_matrix];
        n = length errors;
        B = map (\<lambda>i. map (\<lambda>j.
                  if i < n \<and> j < n
                  then mat_trace ops (mat_mul ops (mat_transpose ops (errors ! i)) (errors ! j))
                  else if i = n \<and> j = n then double_of_int 0 else double_of_int (- 1))
                [0..<n + 1]) [0..<n + 1];
        b = map (\<lambda>i. if i = n then double_of_int (- 1) else double_of_int 0) [0..<n + 1];
        y = householder_qr_solve ops B b
    in (n < minimum_subspace_dimension solver \<longrightarrow>
          (\<forall>solve. map_sum id fst
             (calculateNewFockMatrix (ops\<lparr>householder_qr_solve := solve\<rparr>) solver D_AO) = Inr F)) \<and>
       (minimum_subspace_dimension solver \<le> n \<and>
        length (fock_matrix_deque solver) = length (error_matrix_deque solver) \<and>
        length y = length b \<longrightarrow>
          map_sum id fst (calculateNewFockMatrix ops solver D_AO) =
            Inr (foldl (\<lambda>f i. mat_add ops f (mat_scale ops (y ! i) (focks ! i)))
                   (mat_zero ops (mat_cols ops S) (mat_cols ops S)) [0..<n])))"
proof -
  let ?F = "calculateRHFAOFockMatrix ops D_AO (ham_par solver)"
  let ?S = "get_S ops (ham_par solver)"
  let ?e = "mat_sub ops (mat_mul ops (mat_mul ops ?F D_AO) ?S)
                        (mat_mul ops (mat_mul ops ?S D_AO) ?F)"
  let ?focks = "fock_matrix_deque solver @ [?F]"
  let ?errors = "error_matrix_deque solver @ [?e]"
  let ?n = "length ?errors"
  let ?Bm = "map (\<lambda>i. map (\<lambda>j.
                  if i < ?n \<and> j < ?n
                  then mat_trace ops (mat_mul ops (mat_transpose ops (?errors ! i)) (?errors ! j))
                  else if i = ?n \<and> j = ?n then double_of_int 0 else double_of_int (- 1))
                [0..<?n + 1]) [0..<?n + 1]"
  let ?b = "map (\<lambda>i. if i = ?n then double_of_int (- 1) else double_of_int 0) [0..<?n + 1]"
  let ?y = "householder_qr_solve ops ?Bm ?b"
  let ?solver' = "solver\<lparr>fock_matrix_deque := ?focks, error_matrix_deque := ?errors\<rparr>"
  have sel: "fock_matrix_deque ?solver' = ?focks" "error_matrix_deque ?solver' = ?errors"
    "minimum_subspace_dimension ?solver' = minimum_subspace_dimension solver"
    by simp_all
  have plain: "map_sum id fst
      (calculateNewFockMatrix (ops\<lparr>householder_qr_solve := solve\<rparr>) solver D_AO) = Inr ?F"
    if "?n < minimum_subspace_dimension solver" for solve
    using that by (simp add: calculateNewFockMatrix_def Let_def)
  have diis: "map_sum id fst (calculateNewFockMatrix ops solver D_AO) =
      Inr (foldl (\<lambda>f i. mat_add ops f (mat_scale ops (?y ! i) (?focks ! i)))
             (mat_zero ops (mat_cols ops ?S) (mat_cols ops ?S)) [0..<?n])"
    if m: "minimum_subspace_dimension solver \<le> ?n"
      and l: "length (fock_matrix_deque solver) = length (error_matrix_deque solver)"
      and ly: "length ?y = length ?b"
  proof -
    have Bv: "augmented_B ops ?errors ?n = ?Bm"
      by (rule augmented_B_value)
    have bv: "augmented_b ?n = ?b"
      by (rule augmented_b_value)
    have "length ?b = ?n + 1"
      by (simp only: length_map length_upt diff_zero)
    then have rng: "\<forall>i\<in>set [0..<?n]. i < length ?y \<and> i < length ?focks"
      using l ly by simp
    have loop: "fock_combination_loop ops ?y ?focks [0..<?n]
                  (mat_zero ops (mat_cols ops ?S) (mat_cols ops ?S)) =
          Inr (foldl (\<lambda>f i. mat_add ops f (mat_scale ops (?y ! i) (?focks ! i)))
                 (mat_zero ops (mat_cols ops ?S) (mat_cols ops ?S)) [0..<?n])"
      by (rule fock_combination_loop_value [OF rng])
    show ?thesis
      unfolding calculateNewFockMatrix_def Let_def sel
      by (simp only: m if_True Bv bv loop sum.case map_sum.simps fst_conv id_apply)
  qed
  show ?thesis
    unfolding Let_def using plain diis by blast
qed

theorem diis_step_by_subspace_size_witness:
  "(let ops = \<lparr>get_S = \<lambda>h. 1, calculateRHFAOFockMatrix = \<lambda>D h. D + 1,
                mat_mul = \<lambda>a b. a * b, mat_sub = \<lambda>a b. a - b, mat_add = \<lambda>a b. a + b,
                mat_transpose = \<lambda>a. a, mat_trace = double_of_int,
                mat_scale = \<lambda>d a. significand d * a, mat_zero = \<lambda>r c. 0,
                mat_cols = \<lambda>a. 1,
                householder_qr_solve = \<lambda>B b. map (\<lambda>v. double_of_int 2) b\<rparr>
                :: (int, unit) matrix_operations;
        fresh = \<lparr>ham_par = (), fock_matrix_deque = [], error_matrix_deque = [],
                  minimum_subspace_dimension = 2, maximum_subspace_dimension = 6\<rparr>;
        solver = \<lparr>ham_par = (), fock_matrix_deque = [5], error_matrix_deque = [0],
                   minimum_subspace_dimension = 2, maximum_subspace_dimension = 6\<rparr>
    in length (error_matrix_deque fresh @ [0 :: int]) < minimum_subspace_dimension fresh \<and>
       map_sum id fst
         (calculateNewFockMatrix (ops\<lparr>householder_qr_solve := \<lambda>B b. []\<rparr>) fresh 2) = Inr 3 \<and>
       minimum_subspace_dimension solver \<le> length (error_matrix_deque solver @ [0 :: int]) \<and>
       length (fock_matrix_deque solver) = length (error_matrix_deque solver) \<and>
       map_sum id fst (calculateNewFockMatrix ops solver 2) = Inr 16)"
proof -
  let ?ops = "\<lparr>get_S = \<lambda>h. 1, calculateRHFAOFockMatrix = \<lambda>D h. D + 1,
                mat_mul = \<lambda>a b. a * b, mat_sub = \<lambda>a b. a - b, mat_add = \<lambda>a b. a + b,
                mat_transpose = \<lambda>a. a, mat_trace = double_of_int,
                mat_scale = \<lambda>d a. significand d * a, mat_zero = \<lambda>r c. 0,
                mat_cols = \<lambda>a. 1,
                householder_qr_solve = \<lambda>B b. map (\<lambda>v. double_of_int 2) b\<rparr>
                :: (int, unit) matrix_operations"
  let ?fresh = "\<lparr>ham_par = (), fock_matrix_deque = [], error_matrix_deque = [],
                  minimum_subspace_dimension = 2, maximum_subspace_dimension = 6\<rparr>
                :: (int, unit) DIISRHFSCFSolver"
  let ?solver = "\<lparr>ham_par = (), fock_matrix_deque = [5], error_matrix_deque = [0],
                   minimum_subspace_dimension = 2, maximum_subspace_dimension = 6\<rparr>
                :: (int, unit) DIISRHFSCFSolver"
  have plain: "map_sum id fst
      (calculateNewFockMatrix (?ops\<lparr>householder_qr_solve := \<lambda>B b. []\<rparr>) ?fresh 2) = Inr 3"
    using diis_step_by_subspace_size [of ?ops 2 ?fresh]
    by (simp add: Let_def)
  have diis: "map_sum id fst (calculateNewFockMatrix ?ops ?solver 2) = Inr 16"
    using diis_step_by_subspace_size [of ?ops 2 ?solver]
    by (simp add: Let_def double_of_int_def)
  show ?thesis
    unfolding Let_def using plain diis by simp
qed

subsection \<open>Dimension mismatch in dense evaluation\<close>

text \<open>
  C7. When the number of orbitals of a one-electron operator or of a Hamiltonian differs
  from that of the ONV basis, \<open>evaluateOperatorDense\<close> raises the invalid-argument error
  for every evaluation routine \<open>ev1\<close>, \<open>ev2\<close>, so no matrix element is computed; when the
  numbers agree it does not raise that error.
\<close>

theorem evaluateOperatorDense_dimension_mismatch:
  "(f_numberOfOrbitals f \<noteq> numberOfOrbitals B \<longrightarrow>
      evaluateOperatorDense_one ev1 B f = Inl InvalidArgument) \<and>
   (h_numberOfOrbitals h \<noteq> numberOfOrbitals B \<longrightarrow>
      evaluateOperatorDense_hamiltonian ev2 B h = Inl InvalidArgument) \<and>
   (f_numberOfOrbitals f = numberOfOrbitals B \<longrightarrow>
      evaluateOperatorDense_one ev1 B f \<noteq> Inl InvalidArgument) \<and>
   (h_numberOfOrbitals h = numberOfOrbitals B \<longrightarrow>
      evaluateOperatorDense_hamiltonian ev2 B h \<noteq> Inl InvalidArgument)"
  by (auto simp: evaluateOperatorDense_one_def evaluateOperatorDense_hamiltonian_def
      dimension_def split: sum.splits)

theorem evaluateOperatorDense_dimension_mismatch_witness:
  "f_numberOfOrbitals \<lparr>f_numberOfOrbitals = 3, f_parameters = ()\<rparr> \<noteq>
     numberOfOrbitals \<lparr>numberOfOrbitals = 2, numberOfElectrons = 1,
       vertex_weights = [[1, 0], [1, 1], [0, 2]]\<rparr> \<and>
   evaluateOperatorDense_one (\<lambda>B f dim. dim)
     \<lparr>numberOfOrbitals = 2, numberOfElectrons = 1, vertex_weights = [[1, 0], [1, 1], [0, 2]]\<rparr>
     \<lparr>f_numberOfOrbitals = 3, f_parameters = ()\<rparr> = Inl InvalidArgument \<and>
   evaluateOperatorDense_hamiltonian (\<lambda>B h dim. dim)
     \<lparr>numberOfOrbitals = 2, numberOfElectrons = 1, vertex_weights = [[1, 0], [1, 1], [0, 2]]\<rparr>
     \<lparr>h_numberOfOrbitals = 3, h_parameters = ()\<rparr> = Inl InvalidArgument \<and>
   f_numberOfOrbitals \<lparr>f_numberOfOrbitals = 2, f_parameters = ()\<rparr> =
     numberOfOrbitals \<lparr>numberOfOrbitals = 2, numberOfElectrons = 1,
       vertex_weights = [[1, 0], [1, 1], [0, 2]]\<rparr> \<and>
   evaluateOperatorDense_one (\<lambda>B f dim. dim)
     \<lparr>numberOfOrbitals = 2, numberOfElectrons = 1, vertex_weights = [[1, 0], [1, 1], [0, 2]]\<rparr>
     \<lparr>f_numberOfOrbitals = 2, f_parameters = ()\<rparr> \<noteq> Inl InvalidArgument \<and>
   evaluateOperatorDense_hamiltonian (\<lambda>B h dim. dim)
     \<lparr>numberOfOrbitals = 2, numberOfElectrons = 1, vertex_weights = [[1, 0], [1, 1], [0, 2]]\<rparr>
     \<lparr>h_numberOfOrbitals = 2, h_parameters = ()\<rparr> \<noteq> Inl InvalidArgument"
  using
    evaluateOperatorDense_dimension_mismatch
      [where f = "\<lparr>f_numberOfOrbitals = 3, f_parameters = ()\<rparr>"
         and B = "\<lparr>numberOfOrbitals = 2, numberOfElectrons = 1,
            vertex_weights = [[1, 0], [1, 1], [0, 2]]\<rparr>"
         and h = "\<lparr>h_numberOfOrbitals = 3, h_parameters = ()\<rparr>"
         and ?ev1.0 = "\<lambda>B f dim. dim" and ?ev2.0 = "\<lambda>B h dim. dim"]
    evaluateOperatorDense_dimension_mismatch
      [where f = "\<lparr>f_numberOfOrbitals = 2, f_parameters = ()\<rparr>"
         and B = "\<lparr>numberOfOrbitals = 2, numberOfElectrons = 1,
            vertex_weights = [[1, 0], [1, 1], [0, 2]]\<rparr>"
         and h = "\<lparr>h_numberOfOrbitals = 2, h_parameters = ()\<rparr>"
         and ?ev1.0 = "\<lambda>B f dim. dim" and ?ev2.0 = "\<lambda>B h dim. dim"]
  by simp

subsection \<open>The dimension as a double\<close>

text \<open>
  C8. \<open>calculateDimension\<close> is claimed to return exactly \<open>C(M, N)\<close> whenever that fits
  \<open>size_t\<close>. Its result is the truncation of a \<open>double\<close>, and a double has a significand
  of 53 bits: \<open>C(63, 31) = 916312070471295267\<close> is odd, at least \<open>2 ^ 53\<close> and below
  \<open>2 ^ 64\<close>, so whatever double Boost returns for 63 and 31, the result is not \<open>C(63, 31)\<close>.
\<close>

theorem calculateDimension_63_31_is_rounded:
  assumes "binomial_coefficient 63 31 = Inr d" and "is_double d"
  shows "calculateDimension binomial_coefficient 63 31 \<noteq> Inr (of_nat (63 choose 31)) \<and>
         (63 :: nat) choose 31 < 2 ^ 64"
proof -
  have b: "(63 :: nat) choose 31 = 916312070471295267"
    by (simp add: binomial_code fold_atLeastAtMost_nat.simps fact_numeral)
  have ne: "double_trunc d \<noteq> 916312070471295267"
    by (rule double_trunc_not_large_odd [OF assms(2)]) simp_all
  have "calculateDimension binomial_coefficient 63 31 \<noteq> Inr (916312070471295267 :: size_t)"
  proof
    assume "calculateDimension binomial_coefficient 63 31 = Inr (916312070471295267 :: size_t)"
    then have r: "0 \<le> double_trunc d" "double_trunc d < 2 ^ 64"
      and w: "(word_of_int (double_trunc d) :: size_t) = 916312070471295267"
      using assms(1)
      by (auto simp: calculateDimension_def convert_size_t_double_def Let_def
          split: if_splits sum.splits)
    have "uint (word_of_int (double_trunc d) :: size_t) = double_trunc d"
      using r by (simp add: uint_word_of_int take_bit_int_eq_self)
    then have "double_trunc d = 916312070471295267"
      unfolding w by simp
    then show False using ne by simp
  qed
  then show ?thesis
    unfolding b by simp
qed

theorem calculateDimension_63_31_is_rounded_witness:
  "(\<lambda>m n. Inr \<lparr>significand = 7158688050556994, exponent = 7\<rparr> :: error + double) 63 31 =
     Inr \<lparr>significand = 7158688050556994, exponent = 7\<rparr> \<and>
   is_double \<lparr>significand = 7158688050556994, exponent = 7\<rparr> \<and>
   calculateDimension (\<lambda>m n. Inr \<lparr>significand = 7158688050556994, exponent = 7\<rparr>) 63 31 =
     Inr 916312070471295232 \<and>
   calculateDimension (\<lambda>m n. Inr \<lparr>significand = 7158688050556994, exponent = 7\<rparr>) 63 31 \<noteq>
     Inr (of_nat (63 choose 31))"
proof -
  let ?d = "\<lparr>significand = 7158688050556994, exponent = 7\<rparr>"
  let ?b = "\<lambda>m n. Inr ?d :: error + double"
  have h1: "?b 63 31 = Inr ?d" by simp
  have h2: "is_double ?d" by (simp add: is_double_def)
  have v: "calculateDimension ?b 63 31 = Inr 916312070471295232"
    by (simp add: calculateDimension_def convert_size_t_double_def double_trunc_def)
  show ?thesis
    using calculateDimension_63_31_is_rounded [of ?b ?d, OF h1 h2] h2 v by simp
qed

subsection \<open>More electrons than orbitals\<close>

text \<open>
  C9, as amended. The constructor does not compare \<open>N\<close> with \<open>M\<close> and never raises the
  invalid-argument error. With \<open>N = M + 1\<close> both loops have empty ranges (\<open>M - N + 1\<close> wraps
  to 0) and the construction completes with a table of zeros; with \<open>N > M + 1\<close> the first
  loop runs past the last row of the table, which is undefined behaviour.
\<close>

theorem constructor_without_argument_check:
  "SpinUnresolvedONVBasis M N \<noteq> Inl InvalidArgument \<and>
   (M + 1 < 2 ^ 64 \<longrightarrow>
      SpinUnresolvedONVBasis M (M + 1) =
        Inr \<lparr>numberOfOrbitals = M, numberOfElectrons = M + 1,
             vertex_weights = replicate (M + 1) (replicate (M + 2) 0)\<rparr>) \<and>
   (M + 1 < N \<and> N < 2 ^ 64 \<longrightarrow> SpinUnresolvedONVBasis M N = Inl UndefinedBehaviour)"
  using constructor_error [of M N InvalidArgument] basis_one_too_many [of M]
    basis_too_many_electrons [of M N]
  by auto

theorem constructor_without_argument_check_witness:
  "(1 :: nat) + 1 < 2 ^ 64 \<and>
   SpinUnresolvedONVBasis 1 2 =
     Inr \<lparr>numberOfOrbitals = 1, numberOfElectrons = 2,
          vertex_weights = [[0, 0, 0], [0, 0, 0]]\<rparr> \<and>
   (1 :: nat) + 1 < 3 \<and> (3 :: nat) < 2 ^ 64 \<and>
   SpinUnresolvedONVBasis 1 3 = Inl UndefinedBehaviour \<and>
   SpinUnresolvedONVBasis 1 3 \<noteq> Inl InvalidArgument"
proof -
  have h1: "(1 :: nat) + 1 < 2 ^ 64" and h2: "(1 :: nat) + 1 < 3" and h3: "(3 :: nat) < 2 ^ 64"
    by simp_all
  note t = constructor_without_argument_check [of 1 3]
  have r: "replicate 2 (replicate (1 + 2) (0 :: size_t)) = [[0, 0, 0], [0, 0, 0]]"
    by (simp add: numeral_2_eq_2 numeral_3_eq_3)
  have e: "(1 :: nat) + 1 = 2"
    by simp
  have a: "SpinUnresolvedONVBasis 1 2 =
     Inr \<lparr>numberOfOrbitals = 1, numberOfElectrons = 2,
          vertex_weights = [[0, 0, 0], [0, 0, 0]]\<rparr>"
    using t h1 unfolding e r by blast
  have b: "SpinUnresolvedONVBasis 1 3 = Inl UndefinedBehaviour"
    using t h2 h3 by blast
  have c: "SpinUnresolvedONVBasis 1 3 \<noteq> Inl InvalidArgument"
    using t by blast
  show ?thesis
    using h1 h2 h3 a b c by blast
qed

text \<open>
  The claim as stated fails for one orbital and two electrons: the construction completes.
\<close>

theorem constructor_accepts_one_orbital_two_electrons:
  "SpinUnresolvedONVBasis 1 2 =
     Inr \<lparr>numberOfOrbitals = 1, numberOfElectrons = 2,
          vertex_weights = [[0, 0, 0], [0, 0, 0]]\<rparr>"
proof -
  have h1: "(1 :: nat) + 1 < 2 ^ 64"
    by simp
  have r: "replicate 2 (replicate (1 + 2) (0 :: size_t)) = [[0, 0, 0], [0, 0, 0]]"
    by (simp add: numeral_2_eq_2 numeral_3_eq_3)
  have e: "(1 :: nat) + 1 = 2"
    by simp
  show ?thesis
    using basis_one_too_many [OF h1] unfolding e r .
qed

subsection \<open>No electrons\<close>

lemma pair_count_value: "pair_count K = K * (K + 1) mod 2 ^ 64 div 2"
proof -
  have "(of_nat K * (of_nat K + 1) :: size_t) = of_nat (K * (K + 1))"
    by (simp add: algebra_simps)
  then have "unat (of_nat K * (of_nat K + 1) :: size_t) = K * (K + 1) mod 2 ^ 64"
    by (simp only: unat_of_nat) simp
  then show ?thesis
    by (simp add: pair_count_def unat_div)
qed

lemma pair_count_small:
  fixes K :: nat
  assumes "K < 2 ^ 32"
  shows "K * (K + 1) mod 2 ^ 64 div 2 = K * (K + 1) div 2"
proof -
  have "K * (K + 1) \<le> (2 ^ 32 - 1) * 2 ^ 32"
    using assms by (intro mult_mono) simp_all
  also have "\<dots> < (2 :: nat) ^ 64"
    by simp
  finally show ?thesis by simp
qed

text \<open>
  C10, as amended. For every \<open>M\<close> with \<open>M + 1\<close> below \<open>2 ^ 64\<close> (the row count of the
  table is a \<open>size_t\<close>), the construction with \<open>N = 0\<close> succeeds, the dimension is 1 (as
  is the vertex weight at \<open>(M, 0)\<close>), \<open>representationOf\<close> at address 0 is the all-zero bit
  string, and \<open>calculateOneElectronCouplings\<close> returns matrices of size 1 by 1 with no
  entries; their number is \<open>M * (M + 1) / 2\<close> computed in \<open>size_t\<close>, that is
  \<open>(M * (M + 1) mod 2 ^ 64) div 2\<close>, which is \<open>M * (M + 1) / 2\<close> for \<open>M\<close> below \<open>2 ^ 32\<close>.
\<close>

theorem zero_electron_basis:
  assumes "M + 1 < 2 ^ 64"
  shows "(case SpinUnresolvedONVBasis M 0 of
      Inl e \<Rightarrow> False
    | Inr B \<Rightarrow>
        dimension B = Inr 1 \<and>
        vertexWeight B M 0 = 1 \<and>
        representationOf B 0 = Inr 0 \<and>
        calculateOneElectronCouplings binomial_coefficient B =
          Inr (replicate (M * (M + 1) mod 2 ^ 64 div 2)
                 \<lparr>rows = 1, cols = 1, triplets = []\<rparr>) \<and>
        (M < 2 ^ 32 \<longrightarrow> M * (M + 1) mod 2 ^ 64 div 2 = M * (M + 1) div 2))"
proof -
  let ?B = "\<lparr>numberOfOrbitals = M, numberOfElectrons = 0, vertex_weights = weight_table M 0\<rparr>"
  have B: "SpinUnresolvedONVBasis M 0 = Inr ?B"
    by (rule basis_table) simp
  have d: "dimension ?B = Inr 1"
    by (simp add: dimension_def)
  have v: "vertexWeight ?B M 0 = 1"
    by (simp add: vertexWeight_def length_weight_table weight_table_row weight_table_entry
        binomial_weight_def del: upt_Suc)
  have r: "representationOf ?B 0 = Inr 0"
    by (simp add: representationOf_def)
  have c: "calculateOneElectronCouplings binomial_coefficient ?B =
          Inr (replicate (M * (M + 1) mod 2 ^ 64 div 2) \<lparr>rows = 1, cols = 1, triplets = []\<rparr>)"
    by (simp add: calculateOneElectronCouplings_def d pair_count_value)
  have s: "M < 2 ^ 32 \<longrightarrow> M * (M + 1) mod 2 ^ 64 div 2 = M * (M + 1) div 2"
    using pair_count_small by blast
  show ?thesis
    unfolding B sum.case using d v r c s by blast
qed

theorem zero_electron_basis_witness:
  "(3 :: nat) + 1 < 2 ^ 64 \<and>
   (case SpinUnresolvedONVBasis 3 0 of
      Inl e \<Rightarrow> False
    | Inr B \<Rightarrow>
        dimension B = Inr 1 \<and>
        vertexWeight B 3 0 = 1 \<and>
        representationOf B 0 = Inr 0 \<and>
        calculateOneElectronCouplings (\<lambda>m n. Inl OverflowError) B =
          Inr (replicate 6 \<lparr>rows = 1, cols = 1, triplets = []\<rparr>)) \<and>
   (3 :: nat) < 2 ^ 32 \<and> (3 :: nat) * (3 + 1) div 2 = 6"
proof -
  have h: "(3 :: nat) + 1 < 2 ^ 64" by simp
  have e: "(3 :: nat) * (3 + 1) mod 2 ^ 64 div 2 = 6" by simp
  show ?thesis
    using zero_electron_basis [OF h, of "\<lambda>m n. Inl OverflowError"]
    unfolding e by (cases "SpinUnresolvedONVBasis 3 0") simp_all
qed

text \<open>
  With \<open>2 ^ 32\<close> orbitals and no electrons the product \<open>K * (K + 1)\<close> is
  \<open>2 ^ 64 + 2 ^ 32\<close>, which wraps to \<open>2 ^ 32\<close>: the function returns \<open>2 ^ 31\<close> matrices,
  not \<open>2 ^ 32 * (2 ^ 32 + 1) / 2 = 2 ^ 63 + 2 ^ 31\<close>.
\<close>

theorem zero_electron_couplings_4294967296_orbitals:
  "(case SpinUnresolvedONVBasis 4294967296 0 of
      Inl e \<Rightarrow> False
    | Inr B \<Rightarrow>
        (case calculateOneElectronCouplings (\<lambda>m n. Inl OverflowError) B of
           Inl e \<Rightarrow> False
         | Inr matrices \<Rightarrow>
             length matrices = 2147483648 \<and>
             length matrices \<noteq> 4294967296 * (4294967296 + 1) div 2))"
proof -
  let ?B = "\<lparr>numberOfOrbitals = 4294967296, numberOfElectrons = 0,
             vertex_weights = weight_table 4294967296 0\<rparr>"
  have B: "SpinUnresolvedONVBasis 4294967296 0 = Inr ?B"
    by (rule basis_table) simp
  have d: "dimension ?B = Inr 1"
    by (simp add: dimension_def)
  have p: "pair_count 4294967296 = 2147483648"
    by (simp add: pair_count_value)
  have c: "calculateOneElectronCouplings (\<lambda>m n. Inl OverflowError) ?B =
          Inr (replicate (pair_count 4294967296) \<lparr>rows = 1, cols = 1, triplets = []\<rparr>)"
    by (simp add: calculateOneElectronCouplings_def d)
  show ?thesis
    unfolding B sum.case c by (simp add: p)
qed

end
